theory Spec2Isabelle
  imports Main "HOL-Library.AList"
begin

section \<open>C strings and the UTF-8 primitives of glib\<close>

text \<open>
  A C string is modelled as the list of its bytes without the terminating NUL; a
  \<open>(pointer, len)\<close> pair is the list of its \<open>len\<close> bytes. \<open>c_byte s i\<close> is the read
  \<open>s[i]\<close>: inside the string it is the byte, at the terminator and in the zero-filled
  tail that \<open>enchant_trie_matcher_init\<close> allocates behind the query it is 0.
\<close>

definition c_byte :: "string \<Rightarrow> nat \<Rightarrow> nat" where
  "c_byte s i = (if i < length s then of_char (s ! i) else 0)"

text \<open>The table \<open>g_utf8_skip\<close> of glib: the length of a UTF-8 sequence, from its first byte.\<close>

definition g_utf8_skip :: "nat \<Rightarrow> nat" where
  "g_utf8_skip b =
     (if b < 0xC0 then 1 else if b < 0xE0 then 2 else if b < 0xF0 then 3
      else if b < 0xF8 then 4 else if b < 0xFC then 5 else if b < 0xFE then 6 else 1)"

text \<open>
  \<open>g_utf8_get_char\<close>: the scalar whose encoding starts the string, with the arithmetic
  of \<open>g_utf8_to_ucs4_fast\<close> (lead bytes below 0xF8, which covers all of UTF-8).
\<close>

definition g_utf8_get_char :: "string \<Rightarrow> nat" where
  "g_utf8_get_char s =
     (let first = c_byte s 0 in
      if first < 0xC0 then first
      else if first < 0xE0 then (first mod 32) * 64 + c_byte s 1 mod 64
      else if first < 0xF0
        then (first mod 16) * 4096 + (c_byte s 1 mod 64) * 64 + c_byte s 2 mod 64
      else (first mod 8) * 262144 + (c_byte s 1 mod 64) * 4096 +
           (c_byte s 2 mod 64) * 64 + c_byte s 3 mod 64)"

text \<open>
  Walking a string with \<open>g_utf8_next_char\<close>: the list of its UTF-8 sequences, each
  \<open>g_utf8_skip\<close> bytes long.
\<close>

function utf8_chars :: "string \<Rightarrow> string list" where
  "utf8_chars [] = []"
| "utf8_chars (c # cs) =
     take (g_utf8_skip (of_char c)) (c # cs) # utf8_chars (drop (g_utf8_skip (of_char c)) (c # cs))"
  by pat_completeness auto
termination
  by (relation "measure length") (auto simp: g_utf8_skip_def)

definition g_utf8_to_ucs4_fast :: "string \<Rightarrow> nat list" where
  "g_utf8_to_ucs4_fast s = map g_utf8_get_char (utf8_chars s)"

definition g_utf8_strlen :: "string \<Rightarrow> nat" where
  "g_utf8_strlen s = length (utf8_chars s)"

definition g_unichar_to_utf8 :: "nat \<Rightarrow> string" where
  "g_unichar_to_utf8 c =
     (if c < 0x80 then [char_of c]
      else if c < 0x800 then [char_of (0xC0 + c div 64), char_of (0x80 + c mod 64)]
      else if c < 0x10000
        then [char_of (0xE0 + c div 4096), char_of (0x80 + c div 64 mod 64),
              char_of (0x80 + c mod 64)]
      else if c < 0x200000
        then [char_of (0xF0 + c div 262144), char_of (0x80 + c div 4096 mod 64),
              char_of (0x80 + c div 64 mod 64), char_of (0x80 + c mod 64)]
      else if c < 0x4000000
        then [char_of (0xF8 + c div 16777216), char_of (0x80 + c div 262144 mod 64),
              char_of (0x80 + c div 4096 mod 64), char_of (0x80 + c div 64 mod 64),
              char_of (0x80 + c mod 64)]
      else [char_of (0xFC + c div 1073741824), char_of (0x80 + c div 16777216 mod 64),
            char_of (0x80 + c div 262144 mod 64), char_of (0x80 + c div 4096 mod 64),
            char_of (0x80 + c div 64 mod 64), char_of (0x80 + c mod 64)])"

text \<open>\<open>strncmp(s1, s2, n) == 0\<close> on strings without NUL bytes.\<close>

fun strncmp_eq :: "string \<Rightarrow> string \<Rightarrow> nat \<Rightarrow> bool" where
  "strncmp_eq s1 s2 0 = True"
| "strncmp_eq [] [] (Suc n) = True"
| "strncmp_eq [] (y # ys) (Suc n) = False"
| "strncmp_eq (x # xs) [] (Suc n) = False"
| "strncmp_eq (x # xs) (y # ys) (Suc n) = (x = y \<and> strncmp_eq xs ys n)"

subsection \<open>The Unicode character database\<close>

text \<open>
  The glib functions that read the Unicode tables are parameters of the model: the
  normalisation to NFD, the case conversions of strings, the general category of a
  scalar and its title-case form, and the validation of UTF-8.
\<close>

datatype GUnicodeType =
    G_UNICODE_CONTROL | G_UNICODE_FORMAT | G_UNICODE_UNASSIGNED | G_UNICODE_PRIVATE_USE
  | G_UNICODE_SURROGATE | G_UNICODE_LOWERCASE_LETTER | G_UNICODE_MODIFIER_LETTER
  | G_UNICODE_OTHER_LETTER | G_UNICODE_TITLECASE_LETTER | G_UNICODE_UPPERCASE_LETTER
  | G_UNICODE_COMBINING_MARK | G_UNICODE_ENCLOSING_MARK | G_UNICODE_NON_SPACING_MARK
  | G_UNICODE_DECIMAL_NUMBER | G_UNICODE_LETTER_NUMBER | G_UNICODE_OTHER_NUMBER
  | G_UNICODE_CONNECT_PUNCTUATION | G_UNICODE_DASH_PUNCTUATION | G_UNICODE_CLOSE_PUNCTUATION
  | G_UNICODE_FINAL_PUNCTUATION | G_UNICODE_INITIAL_PUNCTUATION | G_UNICODE_OTHER_PUNCTUATION
  | G_UNICODE_OPEN_PUNCTUATION | G_UNICODE_CURRENCY_SYMBOL | G_UNICODE_MODIFIER_SYMBOL
  | G_UNICODE_MATH_SYMBOL | G_UNICODE_OTHER_SYMBOL | G_UNICODE_LINE_SEPARATOR
  | G_UNICODE_PARAGRAPH_SEPARATOR | G_UNICODE_SPACE_SEPARATOR

record glib =
  g_utf8_normalize_nfd :: "string \<Rightarrow> string"
  g_utf8_strdown :: "string \<Rightarrow> string"
  g_utf8_strup :: "string \<Rightarrow> string"
  g_unichar_type :: "nat \<Rightarrow> GUnicodeType"
  g_unichar_totitle :: "nat \<Rightarrow> nat"
  g_utf8_validate :: "string \<Rightarrow> bool"

section \<open>The trie\<close>

text \<open>
  \<open>struct str_enchant_trie\<close> has two nullable fields, \<open>value\<close> and \<open>subtries\<close>; a
  trie pointer is \<open>NULL\<close> (\<open>None\<close>), the address of the static \<open>n_EOSTrie\<close> or the
  address of a heap node. The hash table \<open>subtries\<close> is an association list with
  distinct keys: \<open>g_hash_table_lookup\<close> is \<open>map_of\<close>, \<open>g_hash_table_insert\<close> is
  \<open>AList.update\<close> (the entry of an existing key is replaced where it stands),
  \<open>g_hash_table_remove\<close> is \<open>AList.delete\<close>, and \<open>g_hash_table_foreach\<close> visits the
  entries in the order of the list.
\<close>

datatype EnchantTrie =
    EOSTrie
  | Node "string option" "(string \<times> EnchantTrie) list option"

abbreviation Leaf :: "string \<Rightarrow> EnchantTrie" where
  "Leaf v \<equiv> Node (Some v) None"

abbreviation Branch :: "(string \<times> EnchantTrie) list \<Rightarrow> EnchantTrie" where
  "Branch tbl \<equiv> Node None (Some tbl)"

fun trie_value :: "EnchantTrie \<Rightarrow> string option" where
  "trie_value EOSTrie = None"
| "trie_value (Node v subs) = v"

fun trie_subtries :: "EnchantTrie \<Rightarrow> (string \<times> EnchantTrie) list option" where
  "trie_subtries EOSTrie = None"
| "trie_subtries (Node v subs) = subs"

text \<open>A measure for the recursion of \<open>enchant_trie_insert\<close>.\<close>

fun weight :: "EnchantTrie \<Rightarrow> nat" where
  "weight EOSTrie = 1"
| "weight (Node v subs) =
     (case v of None \<Rightarrow> 1 | Some s \<Rightarrow> 2 * length s + 3) +
     (case subs of None \<Rightarrow> 0 | Some tbl \<Rightarrow> sum_list (map (\<lambda>kv. weight (snd kv)) tbl))"

text \<open>
  \<open>enchant_trie_insert\<close> returns the node it was given, updated in place (or a fresh
  one for \<open>NULL\<close>). A node that holds a value is turned into a branch by inserting its
  old value and then the new word into the emptied node: the word is not compared
  with the old value.
\<close>

function (domintros) enchant_trie_insert :: "EnchantTrie option \<Rightarrow> string \<Rightarrow> EnchantTrie" where
  "enchant_trie_insert None word = Node (Some word) None"
| "enchant_trie_insert (Some EOSTrie) word = Node (Some word) None"
| "enchant_trie_insert (Some (Node None None)) word = Node (Some word) None"
| "enchant_trie_insert (Some (Node None (Some tbl))) word =
     (if word = [] then Node None (Some (AList.update [] EOSTrie tbl))
      else
        let nxtCh = g_utf8_skip (c_byte word 0);
            tmpWord = take nxtCh word;
            subtrie = map_of tbl tmpWord;
            subtrie' = enchant_trie_insert subtrie (drop nxtCh word)
        in Node None (Some (AList.update tmpWord subtrie' tbl)))"
| "enchant_trie_insert (Some (Node (Some v) old)) word =
     enchant_trie_insert
       (Some (enchant_trie_insert (Some (Node None (Some []))) v)) word"
  by pat_completeness auto
termination
proof (relation "measure (\<lambda>(t, w). 2 * length w + (case t of None \<Rightarrow> 0 | Some x \<Rightarrow> weight x))",
    goal_cases)
  case 1
  show ?case by simp
next
  case (2 tbl word x xa xb)
  have le: "weight t \<le> sum_list (map (\<lambda>kv. weight (snd kv)) tb)" if "map_of tb k = Some t"
    for tb :: "(string \<times> EnchantTrie) list" and k t
    using that by (induction tb) (auto split: if_splits)
  have "0 < g_utf8_skip (c_byte word 0)"
    by (simp add: g_utf8_skip_def)
  with 2 le[of tbl xa] show ?case
    by (cases "map_of tbl xa") (auto simp: neq_Nil_conv)
next
  case (3 v old word)
  show ?case by simp
next
  case (4 v old word)
  have n: "enchant_trie_insert None w = Node (Some w) None" for w
    by (rule enchant_trie_insert.psimps(1)) (auto intro: enchant_trie_insert.domintros)
  have e: "enchant_trie_insert (Some (Node None (Some []))) v =
      (if v = [] then Node None (Some [([], EOSTrie)])
       else Node None (Some [(take (g_utf8_skip (c_byte v 0)) v,
                              Node (Some (drop (g_utf8_skip (c_byte v 0)) v)) None)]))"
    by (simp add: enchant_trie_insert.psimps(4)[OF 4] n Let_def)
  have "0 < g_utf8_skip (c_byte v 0)"
    by (simp add: g_utf8_skip_def)
  then have "weight (enchant_trie_insert (Some (Node None (Some []))) v) < 2 * length v + 3"
    unfolding e by (cases v) auto
  then show ?case by simp
qed

text \<open>
  The equation for a node with a value applies to its own right-hand side again, so it
  is not used as a rewrite rule unless it is named.
\<close>

declare enchant_trie_insert.simps(5) [simp del]

text \<open>
  \<open>enchant_trie_remove\<close> changes the node in place and returns nothing; the model
  returns the node as it is afterwards. In a branch, the child found under the first
  scalar of the word is dereferenced after the recursive call without a test: when the
  key is absent the C program reads through \<open>NULL\<close>, which the model reports as
  \<open>Inl NullDereference\<close>.
\<close>

datatype crash = NullDereference

definition trie_is_empty :: "EnchantTrie \<Rightarrow> bool" where
  "trie_is_empty t = (trie_subtries t = None \<and> trie_value t = None)"

definition trie_collapse :: "(string \<times> EnchantTrie) list \<Rightarrow> EnchantTrie" where
  "trie_collapse tbl =
     (if length tbl = 1
      then (case trie_value (snd (hd tbl)) of
              Some v \<Rightarrow> Node (Some (fst (hd tbl) @ v)) None
            | None \<Rightarrow> Node None (Some tbl))
      else Node None (Some tbl))"

function enchant_trie_remove :: "EnchantTrie option \<Rightarrow> string \<Rightarrow> crash + EnchantTrie option" where
  "enchant_trie_remove None word = Inr None"
| "enchant_trie_remove (Some EOSTrie) word = Inr (Some EOSTrie)"
| "enchant_trie_remove (Some (Node None None)) word = Inr (Some (Node None None))"
| "enchant_trie_remove (Some (Node None (Some tbl))) word =
     (if word = [] then Inr (Some (trie_collapse (AList.delete [] tbl)))
      else
        let nxtCh = g_utf8_skip (c_byte word 0);
            tmpWord = take nxtCh word;
            subtrie = map_of tbl tmpWord
        in case enchant_trie_remove subtrie (drop nxtCh word) of
             Inl e \<Rightarrow> Inl e
           | Inr None \<Rightarrow> Inl NullDereference
           | Inr (Some subtrie') \<Rightarrow>
               Inr (Some (trie_collapse
                 (if trie_is_empty subtrie' then AList.delete tmpWord tbl
                  else AList.update tmpWord subtrie' tbl))))"
| "enchant_trie_remove (Some (Node (Some v) subs)) word =
     Inr (Some (if v = word then Node None subs else Node (Some v) subs))"
  by pat_completeness auto
termination
proof (relation "measure (\<lambda>(t, w). case t of None \<Rightarrow> 0 | Some x \<Rightarrow> weight x)", goal_cases)
  case 1
  show ?case by simp
next
  case (2 tbl word x xa xb)
  have le: "weight t \<le> sum_list (map (\<lambda>kv. weight (snd kv)) tb)" if "map_of tb k = Some t"
    for tb :: "(string \<times> EnchantTrie) list" and k t
    using that by (induction tb) (auto split: if_splits)
  from 2 le[of tbl xa] show ?case
    by (cases "map_of tbl xa") (auto simp: less_Suc_eq_le)
qed

section \<open>Edit distance\<close>

text \<open>
  \<open>edit_dist\<close> decodes both strings to arrays of scalars and fills a table of
  \<open>(len1+1)*(len2+1)\<close> cells, stored row by row in one array. The loops are folds over
  the index ranges; a cell is written with a list update. The C \<open>int\<close> cells are
  unbounded integers here (a distance is at most the longer length).
\<close>

definition edit_dist_cell :: "nat list \<Rightarrow> nat list \<Rightarrow> nat \<Rightarrow> nat \<Rightarrow> int list \<Rightarrow> int list" where
  "edit_dist_cell word1 word2 i j table =
     (let len2 = length word2;
          cost = (if word1 ! (i - 1) \<noteq> word2 ! (j - 1) then 1 else 0);
          v1 = table ! ((i - 1) * (len2 + 1) + j) + 1;
          v1' = (if i > 1 \<and> j > 1 \<and> word1 ! (i - 1) = word2 ! (j - 2) \<and>
                    word1 ! (i - 2) = word2 ! (j - 1)
                 then min v1 (table ! ((i - 2) * (len2 + 1) + (j - 2)) + cost) else v1);
          v2 = table ! (i * (len2 + 1) + (j - 1)) + 1;
          v3 = table ! ((i - 1) * (len2 + 1) + (j - 1)) + cost
      in table[i * (len2 + 1) + j := min (min v1' v2) v3])"

definition edit_dist_table :: "nat list \<Rightarrow> nat list \<Rightarrow> int list" where
  "edit_dist_table word1 word2 =
     (let len1 = length word1; len2 = length word2;
          table0 = replicate ((len1 + 1) * (len2 + 1)) 0;
          table1 = fold (\<lambda>i t. t[i * (len2 + 1) := int i]) [0..<len1 + 1] table0;
          table2 = fold (\<lambda>i t. t[i := int i]) [0..<len2 + 1] table1
      in fold (\<lambda>i t. fold (\<lambda>j t'. edit_dist_cell word1 word2 i j t') [1..<len2 + 1] t)
           [1..<len1 + 1] table2)"

definition edit_dist_ucs4 :: "nat list \<Rightarrow> nat list \<Rightarrow> int" where
  "edit_dist_ucs4 word1 word2 =
     edit_dist_table word1 word2 ! (length word1 * (length word2 + 1) + length word2)"

definition edit_dist :: "string \<Rightarrow> string \<Rightarrow> int" where
  "edit_dist utf8word1 utf8word2 =
     edit_dist_ucs4 (g_utf8_to_ucs4_fast utf8word1) (g_utf8_to_ucs4_fast utf8word2)"

text \<open>
  The table as the specification words it: \<open>d[i][0] = i\<close>, \<open>d[0][j] = j\<close>, and the
  minimum of deletion, insertion and substitution, with the transposition rule.
\<close>

fun dl_table :: "nat list \<Rightarrow> nat list \<Rightarrow> nat \<Rightarrow> nat \<Rightarrow> int" where
  "dl_table a b i 0 = int i"
| "dl_table a b 0 (Suc j) = int (Suc j)"
| "dl_table a b (Suc i) (Suc j) =
     (let cost = (if a ! i = b ! j then 0 else 1);
          d = min (min (dl_table a b i (Suc j) + 1) (dl_table a b (Suc i) j + 1))
                  (dl_table a b i j + cost)
      in if 2 \<le> Suc i \<and> 2 \<le> Suc j \<and> a ! i = b ! (j - 1) \<and> a ! (i - 1) = b ! j
         then min d (dl_table a b (i - 1) (j - 1) + cost) else d)"

section \<open>The matcher\<close>

datatype EnchantTrieMatcherMode = case_sensitive | case_insensitive

text \<open>
  \<open>struct str_enchant_trie_matcher\<close>. The query \<open>word\<close> is written once, by
  \<open>enchant_trie_matcher_init\<close>, so the functions below take it as an argument of its
  own; \<open>path_len\<close> (the allocated size of \<open>path\<close>) is left out, and \<open>path_pos\<close> is the
  length of \<open>path\<close>. The callback is an argument of the search as well: it receives the
  match and the matcher, and returns the matcher as it leaves it.
\<close>

record 'd EnchantTrieMatcher =
  num_errors :: int
  max_errors :: int
  word_pos :: nat
  path :: string
  mode :: EnchantTrieMatcherMode
  cbdata :: 'd

definition enchant_trie_matcher_pushpath ::
  "'d EnchantTrieMatcher \<Rightarrow> string \<Rightarrow> 'd EnchantTrieMatcher" where
  "enchant_trie_matcher_pushpath m newchars = m\<lparr>path := path m @ newchars\<rparr>"

definition enchant_trie_matcher_poppath ::
  "'d EnchantTrieMatcher \<Rightarrow> nat \<Rightarrow> 'd EnchantTrieMatcher" where
  "enchant_trie_matcher_poppath m num = m\<lparr>path := take (length (path m) - num) (path m)\<rparr>"


definition enchant_trie_matcher_init ::
  "glib \<Rightarrow> string \<Rightarrow> int \<Rightarrow> EnchantTrieMatcherMode \<Rightarrow> 'd \<Rightarrow> string \<times> 'd EnchantTrieMatcher" where
  "enchant_trie_matcher_init G word maxerrs md data =
     (let normalized_word = g_utf8_normalize_nfd G word;
          pattern = (if md = case_insensitive then g_utf8_strdown G normalized_word
                     else normalized_word)
      in (pattern,
          \<lparr>num_errors = 0, max_errors = maxerrs, word_pos = 0, path = [], mode = md,
           cbdata = data\<rparr>))"

text \<open>
  \<open>enchant_trie_get_subtrie\<close> returns the child and the key it was found under: in a
  case-insensitive search a key that is absent is looked up again in upper case, and
  \<open>*nxtChS\<close> is replaced by the upper-case key.
\<close>

definition enchant_trie_get_subtrie ::
  "glib \<Rightarrow> EnchantTrie \<Rightarrow> EnchantTrieMatcherMode \<Rightarrow> string \<Rightarrow> EnchantTrie option \<times> string" where
  "enchant_trie_get_subtrie G trie md nxtChS =
     (case trie_subtries trie of
        None \<Rightarrow> (None, nxtChS)
      | Some tbl \<Rightarrow>
          (case map_of tbl nxtChS of
             Some s \<Rightarrow> (Some s, nxtChS)
           | None \<Rightarrow>
               if md = case_insensitive
               then (let nxtChSUp = g_utf8_strup G nxtChS in (map_of tbl nxtChSUp, nxtChSUp))
               else (None, nxtChS)))"

function
  enchant_trie_find_matches ::
    "glib \<Rightarrow> (string \<Rightarrow> 'd EnchantTrieMatcher \<Rightarrow> 'd EnchantTrieMatcher) \<Rightarrow> string \<Rightarrow>
     EnchantTrie option \<Rightarrow> 'd EnchantTrieMatcher \<Rightarrow> 'd EnchantTrieMatcher"
and g_hash_table_foreach_find_matches ::
    "glib \<Rightarrow> (string \<Rightarrow> 'd EnchantTrieMatcher \<Rightarrow> 'd EnchantTrieMatcher) \<Rightarrow> string \<Rightarrow>
     (string \<times> EnchantTrie) list \<Rightarrow> 'd EnchantTrieMatcher \<Rightarrow> 'd EnchantTrieMatcher"
and enchant_trie_find_matches_cb ::
    "glib \<Rightarrow> (string \<Rightarrow> 'd EnchantTrieMatcher \<Rightarrow> 'd EnchantTrieMatcher) \<Rightarrow> string \<Rightarrow>
     string \<Rightarrow> EnchantTrie \<Rightarrow> 'd EnchantTrieMatcher \<Rightarrow> 'd EnchantTrieMatcher"
where
  "enchant_trie_find_matches G cbfunc w None m = m"
| "enchant_trie_find_matches G cbfunc w (Some trie) m =
    (if num_errors m > max_errors m then m
     else case trie of
       EOSTrie \<Rightarrow>
         (let errs = num_errors m;
              m1 = (if length w > word_pos m
                    then m\<lparr>num_errors := errs + int (length w) - int (word_pos m)\<rparr> else m);
              m2 = (if num_errors m1 \<le> max_errors m1 then cbfunc (path m1) m1 else m1)
          in m2\<lparr>num_errors := errs\<rparr>)
     | Node (Some v) subs \<Rightarrow>
         (let errs = num_errors m;
              lowered = (if mode m = case_insensitive then g_utf8_strdown G v else v);
              m1 = m\<lparr>num_errors := errs + edit_dist lowered (drop (word_pos m) w)\<rparr>;
              m2 = (if num_errors m1 \<le> max_errors m1 then cbfunc (path m1 @ v) m1 else m1)
          in m2\<lparr>num_errors := errs\<rparr>)
     | Node None subs \<Rightarrow>
         (let nxtChI = word_pos m + g_utf8_skip (c_byte w (word_pos m));
              nxtChS = take (nxtChI - word_pos m) (drop (word_pos m) w);
              found = enchant_trie_get_subtrie G trie (mode m) nxtChS;
              m1 = (case fst found of
                      None \<Rightarrow> m
                    | Some subtrie \<Rightarrow>
                        (let oldPos = word_pos m;
                             r = enchant_trie_find_matches G cbfunc w (Some subtrie)
                                   ((enchant_trie_matcher_pushpath m (snd found))
                                      \<lparr>word_pos := nxtChI\<rparr>)
                         in enchant_trie_matcher_poppath (r\<lparr>word_pos := oldPos\<rparr>)
                              (length (snd found))));
              m2 = m1\<lparr>num_errors := num_errors m1 + 1\<rparr>;
              m3 = (if c_byte w (word_pos m2) \<noteq> 0
                    then (let oldPos = word_pos m2;
                              r = enchant_trie_find_matches G cbfunc w (Some trie)
                                    (m2\<lparr>word_pos := nxtChI\<rparr>)
                          in r\<lparr>word_pos := oldPos\<rparr>)
                    else m2);
              m4 = (case subs of
                      None \<Rightarrow> m3
                    | Some tbl \<Rightarrow> g_hash_table_foreach_find_matches G cbfunc w tbl m3)
          in m4\<lparr>num_errors := num_errors m4 - 1\<rparr>))"
| "g_hash_table_foreach_find_matches G cbfunc w [] m = m"
| "g_hash_table_foreach_find_matches G cbfunc w (kv # rest) m =
     g_hash_table_foreach_find_matches G cbfunc w rest
       (enchant_trie_find_matches_cb G cbfunc w (fst kv) (snd kv) m)"
| "enchant_trie_find_matches_cb G cbfunc w key subtrie m =
    (let nxtChI = word_pos m + g_utf8_skip (c_byte w (word_pos m)) in
     if strncmp_eq key (drop (word_pos m) w) (nxtChI - word_pos m) then m
     else
       let m1 = enchant_trie_matcher_pushpath m key;
           m2 = enchant_trie_find_matches G cbfunc w (Some subtrie) m1;
           oldPos = word_pos m2;
           m3 = enchant_trie_find_matches G cbfunc w (Some subtrie) (m2\<lparr>word_pos := nxtChI\<rparr>);
           m4 = enchant_trie_matcher_poppath m3 (length key);
           key2 = take (nxtChI - oldPos) (drop oldPos w);
           found = enchant_trie_get_subtrie G subtrie (mode m4) key2;
           m5 = (case fst found of
                   None \<Rightarrow> m4
                 | Some subtrie2 \<Rightarrow>
                     (let nxtChI2 = word_pos m4 + g_utf8_skip (c_byte w (word_pos m4)) in
                      if strncmp_eq key (drop (word_pos m4) w) (nxtChI2 - word_pos m4)
                      then (let m6 = enchant_trie_matcher_pushpath
                                       (enchant_trie_matcher_pushpath
                                          (m4\<lparr>word_pos := nxtChI2\<rparr>) key)
                                       (snd found);
                                m7 = enchant_trie_find_matches G cbfunc w (Some subtrie2) m6
                            in enchant_trie_matcher_poppath
                                 (enchant_trie_matcher_poppath m7 (length (snd found)))
                                 (length key))
                      else m4))
       in m5\<lparr>word_pos := oldPos\<rparr>)"
  by pat_completeness auto
termination
proof (relation "(\<lambda>x. case x of
            Inl (G, cb, w, t, m) \<Rightarrow> (case t of None \<Rightarrow> 0 | Some tr \<Rightarrow> 3 * size tr + 1)
          | Inr (Inl (G, cb, w, tbl, m)) \<Rightarrow> 3 * size_list (size_prod (\<lambda>x. 0) size) tbl + 3
          | Inr (Inr (G, cb, w, key, sub, m)) \<Rightarrow> 3 * size sub + 2)
        <*mlex*>
        measure (\<lambda>x. case x of
            Inl (G, cb, w, t, m) \<Rightarrow> length w - word_pos m
          | Inr y \<Rightarrow> 0)", goal_cases)
  have child: "size s < size t" if "fst (enchant_trie_get_subtrie G t md k) = Some s"
    for G t md k s
  proof -
    have le: "size c \<le> size_list (size_prod (\<lambda>x. 0) size) tb" if "map_of tb q = Some c"
      for tb :: "(string \<times> EnchantTrie) list" and q c
      using that by (induction tb) (auto split: if_splits)
    from that show ?thesis
      by (cases t)
        (auto simp: enchant_trie_get_subtrie_def Let_def less_Suc_eq_le
          split: option.splits if_splits dest: le)
  qed
  {
    case 1
    show ?case by (simp add: wf_mlex)
  next
    case (2 G cbfunc w trie m x21 x22 x xa xb x2 xaa)
    then show ?case
      using child[of G "Node None x22" "mode m" xa x2] by (simp add: mlex_prod_def)
  next
    case (3 G cbfunc w trie m x21 x22 x xa xb xaa xab xac)
    have "word_pos xaa = word_pos m"
      unfolding 3(7)
      by (simp add: Let_def enchant_trie_matcher_poppath_def split: option.splits)
    with 3 have "word_pos m < length w"
      by (auto simp: c_byte_def split: if_splits)
    moreover have "0 < g_utf8_skip (c_byte w (word_pos m))"
      by (simp add: g_utf8_skip_def)
    ultimately show ?case
      using 3 by (simp add: mlex_prod_def)
  next
    case 4
    then show ?case by (simp add: mlex_prod_def)
  next
    case (5 G cbfunc w kv rest m)
    then show ?case by (cases kv) (simp add: mlex_prod_def)
  next
    case 6
    then show ?case by (simp add: mlex_prod_def)
  next
    case 7
    then show ?case by (simp add: mlex_prod_def)
  next
    case 8
    then show ?case by (simp add: mlex_prod_def)
  next
    case (9 G cbfunc w key subtrie m x xa xb xaa xab xac xad xc x2)
    from 9(9,10) have "fst (enchant_trie_get_subtrie G subtrie (mode xac) xad) = Some x2"
      by simp
    then have "size x2 < size subtrie"
      by (rule child)
    then show ?case by (simp add: mlex_prod_def)
  }
qed

text \<open>
  The equations of the search are unfolded by hand: as rewrite rules they would unfold
  the recursive calls on the same node again.
\<close>

declare enchant_trie_find_matches.simps(2) [simp del]
declare enchant_trie_find_matches_cb.simps [simp del]

section \<open>The personal word list\<close>

text \<open>
  \<open>struct str_enchant_pwl\<close>. The hash table \<open>words_in_trie\<close> maps the normalised form
  of a word to the word as it was first added; it is only looked up, never traversed,
  so it is a map.
\<close>

record EnchantPWL =
  trie :: "EnchantTrie option"
  filename :: "string option"
  file_changed :: nat
  words_in_trie :: "string \<rightharpoonup> string"


definition ENCHANT_PWL_MAX_SUGGS :: nat where
  "ENCHANT_PWL_MAX_SUGGS = 15"

definition enchant_pwl_init :: EnchantPWL where
  "enchant_pwl_init =
     \<lparr>trie = None, filename = None, file_changed = 0, words_in_trie = Map.empty\<rparr>"

definition enchant_pwl_add_to_trie :: "glib \<Rightarrow> EnchantPWL \<Rightarrow> string \<Rightarrow> EnchantPWL" where
  "enchant_pwl_add_to_trie G pwl word =
     (let normalized_word = g_utf8_normalize_nfd G word in
      if words_in_trie pwl normalized_word \<noteq> None then pwl
      else pwl\<lparr>words_in_trie := (words_in_trie pwl)(normalized_word \<mapsto> word),
               trie := Some (enchant_trie_insert (trie pwl) normalized_word)\<rparr>)"

text \<open>
  \<open>enchant_pwl_remove_from_trie\<close>: the root is freed and set to \<open>NULL\<close> when the removal
  leaves it without value and without table.
\<close>

definition enchant_pwl_remove_from_trie :: "glib \<Rightarrow> EnchantPWL \<Rightarrow> string \<Rightarrow> crash + EnchantPWL" where
  "enchant_pwl_remove_from_trie G pwl word =
     (let normalized_word = g_utf8_normalize_nfd G word in
      if words_in_trie pwl normalized_word \<noteq> None
      then (case enchant_trie_remove (trie pwl) normalized_word of
              Inl e \<Rightarrow> Inl e
            | Inr t \<Rightarrow>
                Inr (pwl\<lparr>words_in_trie := (words_in_trie pwl)(normalized_word := None),
                         trie := (case t of
                                    None \<Rightarrow> None
                                  | Some n \<Rightarrow> if trie_is_empty n then None else Some n)\<rparr>))
      else Inr pwl)"

subsection \<open>Checking\<close>

definition enchant_pwl_check_cb :: "string \<Rightarrow> int EnchantTrieMatcher \<Rightarrow> int EnchantTrieMatcher" where
  "enchant_pwl_check_cb match m = m\<lparr>cbdata := cbdata m + 1\<rparr>"

definition enchant_pwl_contains :: "glib \<Rightarrow> EnchantPWL \<Rightarrow> string \<Rightarrow> bool" where
  "enchant_pwl_contains G pwl word =
     (let init = enchant_trie_matcher_init G word 0 case_sensitive (0 :: int);
          matcher = enchant_trie_find_matches G enchant_pwl_check_cb (fst init) (trie pwl) (snd init)
      in cbdata matcher \<noteq> 0)"

fun is_all_caps_loop :: "glib \<Rightarrow> string list \<Rightarrow> bool \<Rightarrow> bool" where
  "is_all_caps_loop G [] hasCap = hasCap"
| "is_all_caps_loop G (c # cs) hasCap =
     (case g_unichar_type G (g_utf8_get_char c) of
        G_UNICODE_UPPERCASE_LETTER \<Rightarrow> is_all_caps_loop G cs True
      | G_UNICODE_TITLECASE_LETTER \<Rightarrow> False
      | G_UNICODE_LOWERCASE_LETTER \<Rightarrow> False
      | _ \<Rightarrow> is_all_caps_loop G cs hasCap)"

definition enchant_is_all_caps :: "glib \<Rightarrow> string \<Rightarrow> bool" where
  "enchant_is_all_caps G word = (if word = [] then False else is_all_caps_loop G (utf8_chars word) False)"

definition enchant_is_title_case :: "glib \<Rightarrow> string \<Rightarrow> bool" where
  "enchant_is_title_case G word =
     (if word = [] then False
      else
        let ch = g_utf8_get_char word; type = g_unichar_type G ch in
        if (type \<noteq> G_UNICODE_UPPERCASE_LETTER \<and> type \<noteq> G_UNICODE_TITLECASE_LETTER) \<or>
           ch \<noteq> g_unichar_totitle G ch
        then False
        else list_all
               (\<lambda>c. g_unichar_type G (g_utf8_get_char c) \<noteq> G_UNICODE_UPPERCASE_LETTER \<and>
                    g_unichar_type G (g_utf8_get_char c) \<noteq> G_UNICODE_TITLECASE_LETTER)
               (tl (utf8_chars word)))"

definition enchant_utf8_strtitle :: "glib \<Rightarrow> string \<Rightarrow> string" where
  "enchant_utf8_strtitle G str =
     (let upperStr = g_utf8_strup G str;
          title_case_char = g_unichar_totitle G (g_utf8_get_char upperStr);
          title_case_utf8 = takeWhile (\<lambda>c. c \<noteq> CHR 0x00) (g_unichar_to_utf8 title_case_char);
          lowerTail = g_utf8_strdown G (drop (g_utf8_skip (c_byte upperStr 0)) upperStr)
      in title_case_utf8 @ lowerTail)"

subsection \<open>The backing file\<close>

text \<open>
  The file system is a map from paths to files, each with its bytes and its
  modification time; a write stamps the file with the clock \<open>now\<close>. Opening a file
  that \<open>g_stat\<close> finds, and writing to it, are taken to succeed. \<open>BUFSIZ\<close> is the
  value of glibc.
\<close>

record fs_file =
  contents :: string
  st_mtime :: nat

record world =
  files :: "string \<rightharpoonup> fs_file"
  now :: nat

definition BUFSIZ :: nat where
  "BUFSIZ = 8192"

text \<open>
  \<open>fgets(buffer, n, f)\<close> on the bytes still unread: the bytes stored, the bytes left
  and whether the end-of-file indicator was set (a read was tried at the end).
\<close>

definition fgets :: "nat \<Rightarrow> string \<Rightarrow> string \<times> string \<times> bool" where
  "fgets n stream =
     (let line = takeWhile (\<lambda>c. c \<noteq> CHR 0x0A) stream;
          upto = (if length line < length stream then line @ [CHR 0x0A] else line);
          got = take (n - 1) upto
      in (got, drop (length got) stream,
          length got = length stream \<and> length got < n - 1 \<and>
          (got = [] \<or> last got \<noteq> CHR 0x0A)))"

text \<open>The array \<open>buffer\<close> after \<open>fgets\<close> stored \<open>got\<close> and a NUL at its start.\<close>

definition buffer_store :: "string \<Rightarrow> string \<Rightarrow> string" where
  "buffer_store got buffer = got @ [CHR 0x00] @ drop (length got + 1) buffer"

text \<open>
  \<open>g_ascii_isspace\<close> of glib: space, tab, line feed, form feed and carriage return.
  The vertical tab (0x0B) is not white space for glib.
\<close>

definition g_ascii_isspace :: "char \<Rightarrow> bool" where
  "g_ascii_isspace c = (c \<in> set [CHR '' '', CHR 0x09, CHR 0x0A, CHR 0x0C, CHR 0x0D])"

definition g_strchomp :: "string \<Rightarrow> string" where
  "g_strchomp s = rev (dropWhile g_ascii_isspace (rev s))"

text \<open>
  The inner loop that skips the rest of a line longer than the buffer. Its test reads
  \<open>line[strlen(buffer)-1]\<close>, where \<open>line\<close> is \<open>buffer + off\<close>; a read behind the array
  gives 0 in the model.
\<close>

function skip_long_line :: "nat \<Rightarrow> string \<Rightarrow> string \<Rightarrow> string \<times> string" where
  "skip_long_line off stream buffer =
     (if stream = [] then (stream, buffer)
      else
        let got = fst (fgets (BUFSIZ + 1) stream);
            rest = fst (snd (fgets (BUFSIZ + 1) stream));
            buffer' = buffer_store got buffer
        in if c_byte buffer' (off + length got - 1) = 0x0A then (rest, buffer')
           else skip_long_line off rest buffer')"
  by pat_completeness auto
termination
proof (relation "measure (\<lambda>(off, stream, buffer). length stream)", goal_cases)
  case 1
  show ?case by simp
next
  case (2 off stream buffer x xa xb)
  have "0 < BUFSIZ"
    by (simp add: BUFSIZ_def)
  then have "fst (fgets (BUFSIZ + 1) stream) \<noteq> []"
    using 2(1) by (cases stream) (auto simp: fgets_def Let_def)
  then have "length (fst (snd (fgets (BUFSIZ + 1) stream))) < length stream"
    using 2(1) by (simp add: fgets_def Let_def)
  with 2 show ?case by simp
qed

declare skip_long_line.simps [simp del]

function read_lines :: "glib \<Rightarrow> string \<Rightarrow> string \<Rightarrow> nat \<Rightarrow> EnchantPWL \<Rightarrow> EnchantPWL" where
  "read_lines G stream buffer line_number pwl =
     (if stream = [] then pwl
      else
        let got = fst (fgets (BUFSIZ + 1) stream);
            rest = fst (snd (fgets (BUFSIZ + 1) stream));
            feof = snd (snd (fgets (BUFSIZ + 1) stream));
            buffer' = buffer_store got buffer;
            off = (if line_number = 1 \<and> g_utf8_get_char got = 0xFEFF
                   then g_utf8_skip (c_byte got 0) else 0);
            line = drop off got
        in if c_byte buffer' (off + length line - 1) \<noteq> 0x0A \<and> \<not> feof
           then read_lines G (fst (skip_long_line off rest buffer'))
                  (snd (skip_long_line off rest buffer')) (line_number + 1) pwl
           else
             let chomped = g_strchomp line in
             read_lines G rest buffer' (line_number + 1)
               (if chomped \<noteq> [] \<and> hd chomped \<noteq> CHR ''#'' \<and> g_utf8_validate G chomped
                then enchant_pwl_add_to_trie G pwl chomped else pwl))"
  by pat_completeness auto
termination
proof (relation "measure (\<lambda>(G, stream, buffer, line_number, pwl). length stream)", goal_cases)
  case 1
  show ?case by simp
next
  case (2 G stream buffer line_number pwl x xa xb xc xd xe)
  have skip: "length (fst (skip_long_line off s b)) \<le> length s" for off s b
  proof (induction off s b rule: skip_long_line.induct)
    case (1 off stream buffer)
    show ?case
    proof (cases "stream = []")
      case True
      then show ?thesis by (simp add: skip_long_line.simps)
    next
      case False
      have "length (fst (snd (fgets (BUFSIZ + 1) stream))) \<le> length stream"
        by (simp add: fgets_def Let_def)
      with False 1[OF False refl refl refl] show ?thesis
        by (subst skip_long_line.simps) (auto simp: Let_def)
    qed
  qed
  have "0 < BUFSIZ"
    by (simp add: BUFSIZ_def)
  then have "fst (fgets (BUFSIZ + 1) stream) \<noteq> []"
    using 2(1) by (cases stream) (auto simp: fgets_def Let_def)
  then have "length (fst (snd (fgets (BUFSIZ + 1) stream))) < length stream"
    using 2(1) by (simp add: fgets_def Let_def)
  with 2 have "length xa < length stream"
    by simp
  with skip[of xd xa xc] show ?case by simp
next
  case (3 G stream buffer line_number pwl x xa xb xc xd xe xf)
  have "0 < BUFSIZ"
    by (simp add: BUFSIZ_def)
  then have "fst (fgets (BUFSIZ + 1) stream) \<noteq> []"
    using 3(1) by (cases stream) (auto simp: fgets_def Let_def)
  then have "length (fst (snd (fgets (BUFSIZ + 1) stream))) < length stream"
    using 3(1) by (simp add: fgets_def Let_def)
  with 3 show ?case by simp
qed

declare read_lines.simps [simp del]

definition enchant_pwl_refresh_from_file :: "glib \<Rightarrow> world \<Rightarrow> EnchantPWL \<Rightarrow> EnchantPWL" where
  "enchant_pwl_refresh_from_file G W pwl =
     (case filename pwl of
        None \<Rightarrow> pwl
      | Some name \<Rightarrow>
          (case files W name of
             None \<Rightarrow> pwl
           | Some f \<Rightarrow>
               if file_changed pwl = st_mtime f then pwl
               else read_lines G (contents f) (replicate (BUFSIZ + 1) (CHR 0x00)) 1
                      (pwl\<lparr>trie := None, words_in_trie := Map.empty,
                           file_changed := st_mtime f\<rparr>)))"

text \<open>
  \<open>enchant_pwl_add\<close>: the file is opened for appending (and created when it is
  missing), its modification time is read before the write, a newline is added when
  the file is not empty and does not end with one, and the word and a newline are
  written.
\<close>

definition enchant_pwl_add :: "glib \<Rightarrow> world \<Rightarrow> EnchantPWL \<Rightarrow> string \<Rightarrow> world \<times> EnchantPWL" where
  "enchant_pwl_add G W pwl word =
     (let pwl1 = enchant_pwl_add_to_trie G (enchant_pwl_refresh_from_file G W pwl) word in
      case filename pwl1 of
        None \<Rightarrow> (W, pwl1)
      | Some name \<Rightarrow>
          (let f = (case files W name of
                      None \<Rightarrow> \<lparr>contents = [], st_mtime = now W\<rparr>
                    | Some f0 \<Rightarrow> f0);
               pwl2 = pwl1\<lparr>file_changed := st_mtime f\<rparr>;
               c1 = (if contents f \<noteq> [] \<and> last (contents f) \<noteq> CHR 0x0A
                     then contents f @ [CHR 0x0A] else contents f);
               c2 = c1 @ word @ [CHR 0x0A]
           in (W\<lparr>files := (files W)(name \<mapsto> \<lparr>contents = c2, st_mtime = now W\<rparr>)\<rparr>, pwl2)))"

text \<open>\<open>enchant_pwl_check\<close> returns 0 when the word is found and 1 when it is not.\<close>

definition enchant_pwl_check :: "glib \<Rightarrow> world \<Rightarrow> EnchantPWL \<Rightarrow> string \<Rightarrow> EnchantPWL \<times> int" where
  "enchant_pwl_check G W pwl word =
     (let pwl' = enchant_pwl_refresh_from_file G W pwl in
      if enchant_pwl_contains G pwl' word then (pwl', 0)
      else
        let isTitle = enchant_is_title_case G word;
            isAllCaps = (if isTitle then False else enchant_is_all_caps G word)
        in if isTitle \<or> isAllCaps
           then (if enchant_pwl_contains G pwl' (g_utf8_strdown G word) then (pwl', 0)
                 else if isAllCaps \<and> enchant_pwl_contains G pwl' (enchant_utf8_strtitle G word)
                 then (pwl', 0)
                 else (pwl', 1))
           else (pwl', 1))"

subsection \<open>Suggestions\<close>

text \<open>
  \<open>EnchantSuggList\<close>: the array \<open>suggs\<close> of \<open>ENCHANT_PWL_MAX_SUGGS + 1\<close> pointers (a null
  pointer is \<open>None\<close>), the array \<open>sugg_errs\<close> of \<open>ENCHANT_PWL_MAX_SUGGS\<close> error counts
  and the number \<open>n_suggs\<close> of entries in use. The entries at \<open>n_suggs\<close> and behind are
  stale: the callback frees them and leaves the pointers in the array.
\<close>

record EnchantSuggList =
  suggs :: "string option list"
  sugg_errs :: "int list"
  n_suggs :: nat

definition sugg_list_init :: EnchantSuggList where
  "sugg_list_init =
     \<lparr>suggs = replicate (ENCHANT_PWL_MAX_SUGGS + 1) None,
      sugg_errs = replicate ENCHANT_PWL_MAX_SUGGS 0, n_suggs = 0\<rparr>"

text \<open>
  The first loop of \<open>enchant_pwl_suggest_cb\<close>, from \<open>loc\<close> on: \<open>Some\<close> of the position
  where it stops, or \<open>None\<close> when the match is already in the list and the callback
  returns.
\<close>

function suggest_cb_loc :: "EnchantSuggList \<Rightarrow> string \<Rightarrow> int \<Rightarrow> nat \<Rightarrow> nat option" where
  "suggest_cb_loc sl match errs loc =
     (if loc < n_suggs sl
      then (if sugg_errs sl ! loc > errs then Some loc
            else if suggs sl ! loc = Some match then None
            else suggest_cb_loc sl match errs (loc + 1))
      else Some loc)"
  by pat_completeness auto
termination
  by (relation "measure (\<lambda>(sl, match, errs, loc). n_suggs sl - loc)") auto

declare suggest_cb_loc.simps [simp del]

definition enchant_pwl_suggest_cb ::
  "string \<Rightarrow> EnchantSuggList EnchantTrieMatcher \<Rightarrow> EnchantSuggList EnchantTrieMatcher" where
  "enchant_pwl_suggest_cb match matcher =
     (let sugg_list = cbdata matcher;
          m1 = (if num_errors matcher < max_errors matcher
                then matcher\<lparr>max_errors := num_errors matcher\<rparr> else matcher)
      in case suggest_cb_loc sugg_list match (num_errors m1) 0 of
           None \<Rightarrow> m1
         | Some loc \<Rightarrow>
             if loc \<ge> ENCHANT_PWL_MAX_SUGGS then m1
             else
               let changes = 1 - int (n_suggs sugg_list - loc) in
               m1\<lparr>cbdata := sugg_list
                     \<lparr>suggs := (suggs sugg_list)[loc := Some match],
                      sugg_errs := (sugg_errs sugg_list)[loc := num_errors m1],
                      n_suggs := nat (int (n_suggs sugg_list) + changes)\<rparr>\<rparr>)"





definition suggest_matches :: "glib \<Rightarrow> EnchantPWL \<Rightarrow> string \<Rightarrow> int \<Rightarrow> EnchantSuggList" where
  "suggest_matches G pwl word max_dist =
     (let init = enchant_trie_matcher_init G word max_dist case_insensitive sugg_list_init;
          matcher = enchant_trie_find_matches G enchant_pwl_suggest_cb (fst init) (trie pwl)
                      (snd init);
          sugg_list = cbdata matcher
      in sugg_list\<lparr>suggs := (suggs sugg_list)[n_suggs sugg_list := None]\<rparr>)"


section \<open>An instance of the Unicode tables\<close>

text \<open>
  For evaluating the functions on concrete words: the tables of glib on ASCII. A
  scalar outside ASCII is given no case mapping, no decomposition and the category
  \<open>G_UNICODE_OTHER_LETTER\<close>.
\<close>

definition ascii_tolower :: "char \<Rightarrow> char" where
  "ascii_tolower c =
     (if 65 \<le> (of_char c :: nat) \<and> (of_char c :: nat) \<le> 90 then char_of (of_char c + 32 :: nat)
      else c)"

definition ascii_toupper :: "char \<Rightarrow> char" where
  "ascii_toupper c =
     (if 97 \<le> (of_char c :: nat) \<and> (of_char c :: nat) \<le> 122 then char_of (of_char c - 32 :: nat)
      else c)"

definition ascii_type :: "nat \<Rightarrow> GUnicodeType" where
  "ascii_type c =
     (if 65 \<le> c \<and> c \<le> 90 then G_UNICODE_UPPERCASE_LETTER
      else if 97 \<le> c \<and> c \<le> 122 then G_UNICODE_LOWERCASE_LETTER
      else if 48 \<le> c \<and> c \<le> 57 then G_UNICODE_DECIMAL_NUMBER
      else if c < 32 \<or> c = 127 then G_UNICODE_CONTROL
      else if c = 32 then G_UNICODE_SPACE_SEPARATOR
      else if c < 128 then G_UNICODE_OTHER_PUNCTUATION
      else G_UNICODE_OTHER_LETTER)"

definition glib_ascii :: glib where
  "glib_ascii =
     \<lparr>g_utf8_normalize_nfd = (\<lambda>s. s),
      g_utf8_strdown = map ascii_tolower,
      g_utf8_strup = map ascii_toupper,
      g_unichar_type = ascii_type,
      g_unichar_totitle = (\<lambda>c. if 97 \<le> c \<and> c \<le> 122 then c - 32 else c),
      g_utf8_validate = (\<lambda>s. True)\<rparr>"

text \<open>
  The same tables with three scalars outside ASCII added, as glib has them: U+0345
  (combining Greek ypogegrammeni, a non-spacing mark, bytes \<open>CD 85\<close>), which
  \<open>g_utf8_strup\<close> writes as U+0399 (Greek capital iota, bytes \<open>CE 99\<close>), and U+03B9
  (Greek small iota, bytes \<open>CE B9\<close>), the lower case of U+0399. None of the three has
  a decomposition.
\<close>

definition iota_strdown :: "string \<Rightarrow> string" where
  "iota_strdown s =
     concat (map (\<lambda>c. if c = [CHR 0xCE, CHR 0x99] then [CHR 0xCE, CHR 0xB9]
                       else map ascii_tolower c) (utf8_chars s))"

definition iota_strup :: "string \<Rightarrow> string" where
  "iota_strup s =
     concat (map (\<lambda>c. if c = [CHR 0xCD, CHR 0x85] \<or> c = [CHR 0xCE, CHR 0xB9]
                       then [CHR 0xCE, CHR 0x99]
                       else map ascii_toupper c) (utf8_chars s))"

definition glib_iota :: glib where
  "glib_iota =
     \<lparr>g_utf8_normalize_nfd = (\<lambda>s. s),
      g_utf8_strdown = iota_strdown,
      g_utf8_strup = iota_strup,
      g_unichar_type = (\<lambda>c. if c = 0x345 then G_UNICODE_NON_SPACING_MARK
                             else if c = 0x399 then G_UNICODE_UPPERCASE_LETTER
                             else if c = 0x3B9 then G_UNICODE_LOWERCASE_LETTER
                             else ascii_type c),
      g_unichar_totitle = (\<lambda>c. if 97 \<le> c \<and> c \<le> 122 then c - 32
                                else if c = 0x3B9 then 0x399 else c),
      g_utf8_validate = (\<lambda>s. True)\<rparr>"

section \<open>Properties the claims speak of\<close>

subsection \<open>The suggestion list\<close>

text \<open>
  The entries in use, each with its error count, and the invariant of the list: at
  most \<open>ENCHANT_PWL_MAX_SUGGS\<close> entries in arrays of the allocated lengths, ascending
  error counts, and no string twice.
\<close>

definition sugg_entries :: "EnchantSuggList \<Rightarrow> (string option \<times> int) list" where
  "sugg_entries sl = zip (take (n_suggs sl) (suggs sl)) (take (n_suggs sl) (sugg_errs sl))"

definition sugg_list_ok :: "EnchantSuggList \<Rightarrow> bool" where
  "sugg_list_ok sl =
     (n_suggs sl \<le> ENCHANT_PWL_MAX_SUGGS \<and>
      length (suggs sl) = ENCHANT_PWL_MAX_SUGGS + 1 \<and>
      length (sugg_errs sl) = ENCHANT_PWL_MAX_SUGGS \<and>
      sorted (take (n_suggs sl) (sugg_errs sl)) \<and>
      distinct (take (n_suggs sl) (suggs sl)) \<and>
      None \<notin> set (take (n_suggs sl) (suggs sl)))"

subsection \<open>The words of a trie\<close>

text \<open>
  The strings a trie stores: the end-of-string node stores the empty string, a node
  stores its value, if it has one, and, for every entry of its table, the key followed
  by a string of the child. (No function of the program builds a node with both a value
  and a table.)
\<close>

fun trie_words :: "EnchantTrie \<Rightarrow> string list" where
  "trie_words EOSTrie = [[]]"
| "trie_words (Node v subs) =
     (case v of None \<Rightarrow> [] | Some s \<Rightarrow> [s]) @
     (case subs of
        None \<Rightarrow> []
      | Some tbl \<Rightarrow> concat (map (\<lambda>kv. map (\<lambda>s. fst kv @ s) (trie_words (snd kv))) tbl))"

text \<open>
  A callback that leaves the position in the query, the path and the mode of the
  matcher alone, as both callbacks of the word list do.
\<close>

definition cb_frame :: "(string \<Rightarrow> 'd EnchantTrieMatcher \<Rightarrow> 'd EnchantTrieMatcher) \<Rightarrow> bool" where
  "cb_frame cbfunc =
     (\<forall>s n. word_pos (cbfunc s n) = word_pos n \<and> path (cbfunc s n) = path n \<and>
            mode (cbfunc s n) = mode n)"

text \<open>
  What a search that starts in the matcher state \<open>m\<close> leaves behind, for an invariant \<open>I\<close>
  of the error budget and the data of the callback: the invariant, and the position,
  path, mode and error count of \<open>m\<close>.
\<close>

definition fm_post ::
  "(int \<Rightarrow> 'd \<Rightarrow> bool) \<Rightarrow> 'd EnchantTrieMatcher \<Rightarrow> 'd EnchantTrieMatcher \<Rightarrow> bool" where
  "fm_post I m r =
     (I (max_errors r) (cbdata r) \<and> word_pos r = word_pos m \<and> path r = path m \<and>
      mode r = mode m \<and> num_errors r = num_errors m)"

subsection \<open>Shapes of tries\<close>

text \<open>
  The chain of one-entry branches that spells a word scalar by scalar and ends in the
  end-of-string node.
\<close>

function eos_chain :: "string \<Rightarrow> EnchantTrie" where
  "eos_chain [] = Node None (Some [([], EOSTrie)])"
| "eos_chain (c # cs) =
     Node None (Some [(take (g_utf8_skip (of_char c)) (c # cs),
                       eos_chain (drop (g_utf8_skip (of_char c)) (c # cs)))])"
  by pat_completeness auto
termination
  by (relation "measure length") (auto simp: g_utf8_skip_def)

subsection \<open>Observing the emissions\<close>

text \<open>A callback that records every match with the error count of the matcher.\<close>

definition record_cb ::
  "string \<Rightarrow> (string \<times> int) list EnchantTrieMatcher \<Rightarrow> (string \<times> int) list EnchantTrieMatcher" where
  "record_cb match m = m\<lparr>cbdata := cbdata m @ [(match, num_errors m)]\<rparr>"

subsection \<open>The invariant of the edit-distance table\<close>

text \<open>
  A cell of the array is good when it holds the value of \<open>dl_table\<close>; while the loops
  run, the rows above row \<open>i\<close>, column 0 and the cells of row \<open>i\<close> left of column \<open>j\<close>
  are good.
\<close>

definition table_good :: "nat list \<Rightarrow> nat list \<Rightarrow> int list \<Rightarrow> nat \<Rightarrow> nat \<Rightarrow> bool" where
  "table_good a b t i j = (t ! (i * Suc (length b) + j) = dl_table a b i j)"

definition table_inv :: "nat list \<Rightarrow> nat list \<Rightarrow> int list \<Rightarrow> nat \<Rightarrow> nat \<Rightarrow> bool" where
  "table_inv a b t i j =
     (length t = Suc (length a) * Suc (length b) \<and>
      (\<forall>i' j'. i' \<le> length a \<and> j' \<le> length b \<and> (i' < i \<or> j' = 0 \<or> (i' = i \<and> j' < j)) \<longrightarrow>
         table_good a b t i' j'))"

subsection \<open>Branches and their children\<close>

text \<open>
  A table whose only entry is a node with a value (a leaf); the tries none of whose
  tables is of that kind; and the tries all of whose tables have two entries or more.
\<close>

definition single_leaf_child :: "(string \<times> EnchantTrie) list \<Rightarrow> bool" where
  "single_leaf_child tbl = (length tbl = 1 \<and> trie_value (snd (hd tbl)) \<noteq> None)"

fun no_single_leaf_branch :: "EnchantTrie \<Rightarrow> bool" where
  "no_single_leaf_branch EOSTrie = True"
| "no_single_leaf_branch (Node v subs) =
     (case subs of
        None \<Rightarrow> True
      | Some tbl \<Rightarrow> \<not> single_leaf_child tbl \<and> list_all (\<lambda>kv. no_single_leaf_branch (snd kv)) tbl)"

fun branches_have_two_children :: "EnchantTrie \<Rightarrow> bool" where
  "branches_have_two_children EOSTrie = True"
| "branches_have_two_children (Node v subs) =
     (case subs of
        None \<Rightarrow> True
      | Some tbl \<Rightarrow> 2 \<le> length tbl \<and> list_all (\<lambda>kv. branches_have_two_children (snd kv)) tbl)"

text \<open>The trie built from the empty trie by inserting the words of a list in turn.\<close>

definition trie_of_words :: "string list \<Rightarrow> EnchantTrie option" where
  "trie_of_words ws = fold (\<lambda>w t. Some (enchant_trie_insert t w)) ws None"

text \<open>
  What insertions keep: a node is a leaf or a branch with a table that is not empty and
  has no single leaf child; the end-of-string node stands under the empty key and
  nowhere else.
\<close>

fun built_node :: "EnchantTrie \<Rightarrow> bool" where
  "built_node EOSTrie = False"
| "built_node (Node v subs) =
     (case subs of
        None \<Rightarrow> v \<noteq> None
      | Some tbl \<Rightarrow>
          v = None \<and> tbl \<noteq> [] \<and> \<not> single_leaf_child tbl \<and>
          list_all (\<lambda>kv. if fst kv = [] then snd kv = EOSTrie else built_node (snd kv)) tbl)"

subsection \<open>Looking a word up\<close>

text \<open>
  The descent that follows the query scalar by scalar from the position \<open>pos\<close>, with no
  error allowed: at a branch the child under the next scalar of the query (under the
  empty key when the query is used up), at the end-of-string node nothing of the query
  may be left, and at a node with a value the rest of the query must be at distance 0
  from the value.
\<close>

function trie_lookup :: "EnchantTrie option \<Rightarrow> string \<Rightarrow> nat \<Rightarrow> bool" where
  "trie_lookup None w pos = False"
| "trie_lookup (Some EOSTrie) w pos = (\<not> length w > pos)"
| "trie_lookup (Some (Node (Some v) subs)) w pos = (edit_dist v (drop pos w) \<le> 0)"
| "trie_lookup (Some (Node None None)) w pos = False"
| "trie_lookup (Some (Node None (Some tbl))) w pos =
     trie_lookup (map_of tbl (take (g_utf8_skip (c_byte w pos)) (drop pos w))) w
       (pos + g_utf8_skip (c_byte w pos))"
  by pat_completeness auto
termination
proof (relation "measure (\<lambda>(t, w, pos). case t of None \<Rightarrow> 0 | Some x \<Rightarrow> Suc (size x))", goal_cases)
  case 1
  show ?case by simp
next
  case (2 tbl w pos)
  have le: "size c \<le> size_list (size_prod (\<lambda>x. 0) size) tb" if "map_of tb q = Some c"
    for tb :: "(string \<times> EnchantTrie) list" and q c
    using that by (induction tb) (auto split: if_splits)
  show ?case
    by (cases "map_of tbl (take (g_utf8_skip (c_byte w pos)) (drop pos w))")
      (auto dest!: le)
qed

subsection \<open>Recasing a suggestion\<close>


subsection \<open>The distance of a suggestion from the query\<close>

text \<open>
  A string of whole UTF-8 sequences (the last one is not cut short), and a string that
  is one whole sequence.
\<close>

definition utf8_whole :: "string \<Rightarrow> bool" where
  "utf8_whole s = list_all (\<lambda>c. length c = g_utf8_skip (c_byte c 0)) (utf8_chars s)"






section \<open>Basic facts\<close>

lemma skip_positive: "0 < g_utf8_skip b"
  by (simp add: g_utf8_skip_def)

lemma skip_nonzero [simp]: "g_utf8_skip b \<noteq> 0"
  by (simp add: g_utf8_skip_def)

lemma list_all_update:
  "list_all P tbl \<Longrightarrow> P (k, v) \<Longrightarrow> list_all P (AList.update k v tbl)"
  by (induction tbl) (auto simp: AList.update.simps)

lemma update_single:
  assumes "length (AList.update k v tbl) = 1"
  shows "AList.update k v tbl = [(k, v)] \<and> (tbl = [] \<or> (\<exists>x. tbl = [(k, x)]))"
proof (cases tbl)
  case Nil
  then show ?thesis by (simp add: AList.update.simps)
next
  case (Cons e es)
  with assms have "es = []"
    by (cases e) (auto simp: AList.update.simps split: if_splits)
  with Cons assms show ?thesis
    by (cases e) (auto simp: AList.update.simps split: if_splits)
qed

lemma map_of_list_all:
  "map_of tbl k = Some x \<Longrightarrow> list_all P tbl \<Longrightarrow> P (k, x)"
  by (induction tbl) (auto split: if_splits)

lemma take_skip_nonempty: "w \<noteq> [] \<Longrightarrow> take (g_utf8_skip b) w \<noteq> []"
  by (cases w) auto

lemma drop_skip_shorter: "w \<noteq> [] \<Longrightarrow> length (drop (g_utf8_skip b) w) < length w"
  using skip_positive[of b] by (cases w) auto

lemma list_all_delete: "list_all P tbl \<Longrightarrow> list_all P (AList.delete k tbl)"
  by (induction tbl) (auto simp: AList.delete_eq)

section \<open>The search: induction and what every emission satisfies\<close>

lemma map_of_size_less:
  "map_of tbl k = Some (s :: EnchantTrie) \<Longrightarrow> size s < size (Node v (Some tbl))"
proof -
  have le: "size c \<le> size_list (size_prod (\<lambda>x. 0) size) tb" if "map_of tb q = Some c"
    for tb :: "(string \<times> EnchantTrie) list" and q c
    using that by (induction tb) (auto split: if_splits)
  assume "map_of tbl k = Some s"
  from le[OF this] show ?thesis by simp
qed

lemma in_set_size_less:
  "(k, s :: EnchantTrie) \<in> set tbl \<Longrightarrow> size s < size (Node v (Some tbl))"
proof -
  have le: "size c \<le> size_list (size_prod (\<lambda>x. 0) size) tb" if "(q, c) \<in> set tb"
    for tb :: "(string \<times> EnchantTrie) list" and q c
    using that by (induction tb) auto
  assume "(k, s) \<in> set tbl"
  from le[OF this] show ?thesis by simp
qed

lemma get_subtrie_SomeD:
  assumes "fst (enchant_trie_get_subtrie G t md k) = Some s"
  shows "\<exists>tbl. trie_subtries t = Some tbl \<and>
           map_of tbl (snd (enchant_trie_get_subtrie G t md k)) = Some s"
  using assms
  by (auto simp: enchant_trie_get_subtrie_def Let_def split: option.splits if_splits)

lemma get_subtrie_size:
  assumes "fst (enchant_trie_get_subtrie G t md k) = Some s"
  shows "size s < size t"
proof -
  from get_subtrie_SomeD[OF assms] obtain tbl where
    "trie_subtries t = Some tbl" "map_of tbl (snd (enchant_trie_get_subtrie G t md k)) = Some s"
    by blast
  then show ?thesis
    by (cases t) (auto dest: map_of_size_less)
qed

lemma fm_strong_induct:
  fixes P1 :: "EnchantTrie option \<Rightarrow> 'd EnchantTrieMatcher \<Rightarrow> bool"
    and P2 :: "(string \<times> EnchantTrie) list \<Rightarrow> 'd EnchantTrieMatcher \<Rightarrow> bool"
    and P3 :: "string \<Rightarrow> EnchantTrie \<Rightarrow> 'd EnchantTrieMatcher \<Rightarrow> bool"
  assumes A1: "\<And>m. P1 None m"
    and A2: "\<And>t m. (\<And>t' m'. size t' < size t \<Longrightarrow> P1 (Some t') m') \<Longrightarrow>
                (\<And>m'. length w - word_pos m' < length w - word_pos m \<Longrightarrow> P1 (Some t) m') \<Longrightarrow>
                (\<And>tbl m'. trie_subtries t = Some tbl \<Longrightarrow> P2 tbl m') \<Longrightarrow> P1 (Some t) m"
    and A3: "\<And>m. P2 [] m"
    and A4: "\<And>kv rest m. P3 (fst kv) (snd kv) m \<Longrightarrow> (\<And>m'. P2 rest m') \<Longrightarrow> P2 (kv # rest) m"
    and A5: "\<And>key sub m. (\<And>m'. P1 (Some sub) m') \<Longrightarrow>
                (\<And>t' m'. size t' < size sub \<Longrightarrow> P1 (Some t') m') \<Longrightarrow> P3 key sub m"
  shows "P1 t m" and "P2 tbl m" and "P3 key sub m"
proof -
  have P2I': "(\<forall>kv n. kv \<in> set l \<longrightarrow> P3 (fst kv) (snd kv) n) \<longrightarrow> (\<forall>m0. P2 l m0)" for l
  proof (induction l)
    case Nil
    show ?case by (simp add: A3)
  next
    case (Cons kv rest)
    show ?case
    proof (intro impI allI)
      fix m0
      assume a: "\<forall>kv' n. kv' \<in> set (kv # rest) \<longrightarrow> P3 (fst kv') (snd kv') n"
      show "P2 (kv # rest) m0"
      proof (rule A4)
        from a have "kv \<in> set (kv # rest) \<longrightarrow> P3 (fst kv) (snd kv) m0"
          by blast
        then show "P3 (fst kv) (snd kv) m0"
          by simp
        from a have "\<forall>kv' n. kv' \<in> set rest \<longrightarrow> P3 (fst kv') (snd kv') n"
          by (meson list.set_intros(2))
        with Cons show "P2 rest m'" for m'
          by blast
      qed
    qed
  qed
  have P2I: "P2 l m0" if "\<And>kv n. kv \<in> set l \<Longrightarrow> P3 (fst kv) (snd kv) n" for l m0
    using P2I'[of l] that by blast
  have S: "\<forall>t m. size t < n \<longrightarrow> P1 (Some t) m" for n
  proof (induction n)
    case 0
    show ?case by simp
  next
    case (Suc n)
    show ?case
    proof (intro allI impI)
      fix t :: EnchantTrie and m :: "'d EnchantTrieMatcher"
      assume lt: "size t < Suc n"
      have ch: "P1 (Some t') m'" if "size t' < size t" for t' m'
        using that lt Suc by auto
      have p3: "P3 (fst kv) (snd kv) n'" if "kv \<in> set tb" "trie_subtries t = Some tb" for kv tb n'
      proof (rule A5)
        from that(1) have "(fst kv, snd kv) \<in> set tb"
          by simp
        then have "size (snd kv) < size (Node (trie_value t) (Some tb))"
          by (rule in_set_size_less)
        with that(2) have sz: "size (snd kv) < size t"
          by (cases t) simp_all
        show "P1 (Some (snd kv)) m'" for m'
          using sz by (rule ch)
        show "P1 (Some t') m'" if "size t' < size (snd kv)" for t' m'
          using that sz by (intro ch) simp
      qed
      have p2: "P2 tb m'" if "trie_subtries t = Some tb" for tb m'
        by (rule P2I) (rule p3[OF _ that])
      show "P1 (Some t) m"
      proof (induction "length w - word_pos m" arbitrary: m rule: less_induct)
        case less
        show ?case
          by (rule A2) (auto intro: ch p2 less)
      qed
    qed
  qed
  have all1: "P1 (Some t0) m0" for t0 m0
    using S[of "Suc (size t0)"] by simp
  show "P1 t m"
    by (cases t) (auto intro: A1 all1)
  have all3: "P3 k s m0" for k s m0
    by (rule A5) (rule all1)+
  show "P3 key sub m"
    by (rule all3)
  show "P2 tbl m"
    by (rule P2I) (rule all3)
qed


lemma trie_words_child:
  assumes "map_of tbl k = Some sub" "x \<in> set (trie_words sub)"
  shows "k @ x \<in> set (trie_words (Node v (Some tbl)))"
proof -
  from assms(1) have "(k, sub) \<in> set tbl" by (rule map_of_SomeD)
  with assms(2) show ?thesis by force
qed

lemma trie_words_get_subtrie:
  assumes "fst (enchant_trie_get_subtrie G t md k) = Some sub" "x \<in> set (trie_words sub)"
  shows "snd (enchant_trie_get_subtrie G t md k) @ x \<in> set (trie_words t)"
proof -
  from get_subtrie_SomeD[OF assms(1)] obtain tbl where
    t: "trie_subtries t = Some tbl" and
    m: "map_of tbl (snd (enchant_trie_get_subtrie G t md k)) = Some sub"
    by blast
  from t obtain v where "t = Node v (Some tbl)"
    by (cases t) auto
  with trie_words_child[OF m assms(2)] show ?thesis by simp
qed

lemma find_matches_sound_aux:
  fixes I :: "int \<Rightarrow> 'd \<Rightarrow> bool"
  assumes frame: "cb_frame cbfunc"
    and step: "\<And>s n. I (max_errors n) (cbdata n) \<Longrightarrow> num_errors n \<le> max_errors n \<Longrightarrow> s \<in> S \<Longrightarrow>
                 I (max_errors (cbfunc s n)) (cbdata (cbfunc s n))"
  shows "(\<forall>x \<in> set (case t of None \<Rightarrow> [] | Some tr \<Rightarrow> trie_words tr). path m @ x \<in> S) \<longrightarrow>
           I (max_errors m) (cbdata m) \<longrightarrow> fm_post I m (enchant_trie_find_matches G cbfunc w t m)"
    and "(\<forall>kv \<in> set tbl. \<forall>x \<in> set (trie_words (snd kv)). path m @ fst kv @ x \<in> S) \<longrightarrow>
           I (max_errors m) (cbdata m) \<longrightarrow> fm_post I m (g_hash_table_foreach_find_matches G cbfunc w tbl m)"
    and "(\<forall>x \<in> set (trie_words sub). path m @ key @ x \<in> S) \<longrightarrow>
           I (max_errors m) (cbdata m) \<longrightarrow> fm_post I m (enchant_trie_find_matches_cb G cbfunc w key sub m)"
proof (induction t m and tbl m and key sub m rule: fm_strong_induct[where w = w])
  case (1 m)
  show ?case by (simp add: fm_post_def)
next
  case (2 t m)
  from frame have fr: "\<And>s n. word_pos (cbfunc s n) = word_pos n" "\<And>s n. path (cbfunc s n) = path n"
    "\<And>s n. mode (cbfunc s n) = mode n"
    by (auto simp: cb_frame_def)
  show ?case
  proof (intro impI)
    assume W: "\<forall>x \<in> set (case Some t of None \<Rightarrow> [] | Some tr \<Rightarrow> trie_words tr). path m @ x \<in> S"
      and Im: "I (max_errors m) (cbdata m)"
    show "fm_post I m (enchant_trie_find_matches G cbfunc w (Some t) m)"
    proof (cases "num_errors m > max_errors m")
      case True
      with Im show ?thesis by (simp add: fm_post_def enchant_trie_find_matches.simps(2))
    next
      case False
      note inb = this
      show ?thesis
      proof (cases t)
        case EOSTrie
        with W have pS: "path m \<in> S" by simp
        show ?thesis
          using inb EOSTrie Im pS
          by (auto simp: fm_post_def Let_def fr enchant_trie_find_matches.simps(2) intro!: step)
      next
        case (Node v subs)
        show ?thesis
        proof (cases v)
          case (Some val)
          with W Node have pS: "path m @ val \<in> S" by simp
          show ?thesis
            using inb Node Some Im pS
            by (auto simp: fm_post_def Let_def fr enchant_trie_find_matches.simps(2) intro!: step)
        next
          case None
          define nxtChI where "nxtChI = word_pos m + g_utf8_skip (c_byte w (word_pos m))"
          define nxtChS where "nxtChS = take (nxtChI - word_pos m) (drop (word_pos m) w)"
          define found where "found = enchant_trie_get_subtrie G t (mode m) nxtChS"
          define m1 where "m1 = (case fst found of
                      None \<Rightarrow> m
                    | Some subtrie \<Rightarrow>
                        (let oldPos = word_pos m;
                             r = enchant_trie_find_matches G cbfunc w (Some subtrie)
                                   ((enchant_trie_matcher_pushpath m (snd found))
                                      \<lparr>word_pos := nxtChI\<rparr>)
                         in enchant_trie_matcher_poppath (r\<lparr>word_pos := oldPos\<rparr>)
                              (length (snd found))))"
          define m2 where "m2 = m1\<lparr>num_errors := num_errors m1 + 1\<rparr>"
          define m3 where "m3 = (if c_byte w (word_pos m2) \<noteq> 0
                    then (let oldPos = word_pos m2;
                              r = enchant_trie_find_matches G cbfunc w (Some t)
                                    (m2\<lparr>word_pos := nxtChI\<rparr>)
                          in r\<lparr>word_pos := oldPos\<rparr>)
                    else m2)"
          define m4 where "m4 = (case subs of
                      None \<Rightarrow> m3
                    | Some tbl \<Rightarrow> g_hash_table_foreach_find_matches G cbfunc w tbl m3)"
          have res: "enchant_trie_find_matches G cbfunc w (Some t) m = m4\<lparr>num_errors := num_errors m4 - 1\<rparr>"
            unfolding m4_def m3_def m2_def m1_def found_def nxtChS_def nxtChI_def
            using inb Node None
            apply (subst enchant_trie_find_matches.simps)
            apply (simp only: Let_def EnchantTrie.case option.case if_False)
            done
          have p1: "fm_post I m m1"
          proof (cases "fst found")
            case None
            with Im show ?thesis by (simp add: m1_def fm_post_def)
          next
            case (Some subtrie)
            let ?m0 = "(enchant_trie_matcher_pushpath m (snd found))\<lparr>word_pos := nxtChI\<rparr>"
            have sz: "size subtrie < size t"
              using Some unfolding found_def by (rule get_subtrie_size)
            have "\<forall>x \<in> set (trie_words subtrie). path ?m0 @ x \<in> S"
              using W trie_words_get_subtrie[of G t "mode m" nxtChS subtrie] Some
              by (simp add: found_def enchant_trie_matcher_pushpath_def)
            moreover have "I (max_errors ?m0) (cbdata ?m0)"
              using Im by (simp add: enchant_trie_matcher_pushpath_def)
            ultimately have "fm_post I ?m0 (enchant_trie_find_matches G cbfunc w (Some subtrie) ?m0)"
              using 2(1)[OF sz, of ?m0] by simp
            then show ?thesis
              using Some
              by (simp add: m1_def Let_def fm_post_def enchant_trie_matcher_pushpath_def
                  enchant_trie_matcher_poppath_def)
          qed
          then have p2: "I (max_errors m2) (cbdata m2)" "word_pos m2 = word_pos m" "path m2 = path m"
            "mode m2 = mode m" "num_errors m2 = num_errors m + 1"
            by (simp_all add: m2_def fm_post_def)
          have p3: "fm_post I m2 m3"
          proof (cases "c_byte w (word_pos m2) \<noteq> 0")
            case False
            with p2 show ?thesis by (simp add: m3_def fm_post_def)
          next
            case True
            let ?m0 = "m2\<lparr>word_pos := nxtChI\<rparr>"
            from True p2 have "word_pos m < length w"
              by (auto simp: c_byte_def split: if_splits)
            moreover have "0 < g_utf8_skip (c_byte w (word_pos m))"
              by (simp add: g_utf8_skip_def)
            ultimately have "length w - word_pos ?m0 < length w - word_pos m"
              by (simp add: nxtChI_def)
            moreover have "\<forall>x \<in> set (trie_words t). path ?m0 @ x \<in> S"
              using W p2 by simp
            moreover have "I (max_errors ?m0) (cbdata ?m0)"
              using p2 by simp
            ultimately have "fm_post I ?m0 (enchant_trie_find_matches G cbfunc w (Some t) ?m0)"
              using 2(2)[of ?m0] by simp
            with True show ?thesis
              by (simp add: m3_def Let_def fm_post_def)
          qed
          have p4: "fm_post I m3 m4"
          proof (cases subs)
            case None
            with p2 p3 show ?thesis by (simp add: m4_def fm_post_def)
          next
            case (Some tbl)
            have "trie_subtries t = Some tbl"
              using Node Some by simp
            moreover have "\<forall>kv \<in> set tbl. \<forall>x \<in> set (trie_words (snd kv)). path m3 @ fst kv @ x \<in> S"
              using W Node Some p2 p3 by (force simp: fm_post_def)
            moreover have "I (max_errors m3) (cbdata m3)"
              using p3 by (simp add: fm_post_def)
            ultimately have "fm_post I m3 (g_hash_table_foreach_find_matches G cbfunc w tbl m3)"
              using 2(3)[of tbl m3] by simp
            with Some show ?thesis by (simp add: m4_def)
          qed
          from p2 p3 p4 show ?thesis
            unfolding res by (simp add: fm_post_def)
        qed
      qed
    qed
  qed
next
  case (3 m)
  show ?case by (simp add: fm_post_def)
next
  case (4 kv rest m)
  show ?case
  proof (intro impI)
    assume W: "\<forall>kv' \<in> set (kv # rest). \<forall>x \<in> set (trie_words (snd kv')). path m @ fst kv' @ x \<in> S"
      and Im: "I (max_errors m) (cbdata m)"
    let ?r = "enchant_trie_find_matches_cb G cbfunc w (fst kv) (snd kv) m"
    from 4(1) W Im have a: "fm_post I m ?r"
      by simp
    with W have "\<forall>kv' \<in> set rest. \<forall>x \<in> set (trie_words (snd kv')). path ?r @ fst kv' @ x \<in> S"
      by (simp add: fm_post_def)
    with 4(2)[of ?r] a have "fm_post I ?r (g_hash_table_foreach_find_matches G cbfunc w rest ?r)"
      by (simp add: fm_post_def)
    with a show "fm_post I m (g_hash_table_foreach_find_matches G cbfunc w (kv # rest) m)"
      by (simp add: fm_post_def)
  qed
next
  case (5 key sub m)
  show ?case
  proof (intro impI)
    assume W: "\<forall>x \<in> set (trie_words sub). path m @ key @ x \<in> S"
      and Im: "I (max_errors m) (cbdata m)"
    define nxtChI where "nxtChI = word_pos m + g_utf8_skip (c_byte w (word_pos m))"
    define m1 where "m1 = enchant_trie_matcher_pushpath m key"
    define m2 where "m2 = enchant_trie_find_matches G cbfunc w (Some sub) m1"
    define oldPos where "oldPos = word_pos m2"
    define m3 where "m3 = enchant_trie_find_matches G cbfunc w (Some sub) (m2\<lparr>word_pos := nxtChI\<rparr>)"
    define m4 where "m4 = enchant_trie_matcher_poppath m3 (length key)"
    define key2 where "key2 = take (nxtChI - oldPos) (drop oldPos w)"
    define found where "found = enchant_trie_get_subtrie G sub (mode m4) key2"
    define m5 where "m5 = (case fst found of
                   None \<Rightarrow> m4
                 | Some subtrie2 \<Rightarrow>
                     (let nxtChI2 = word_pos m4 + g_utf8_skip (c_byte w (word_pos m4)) in
                      if strncmp_eq key (drop (word_pos m4) w) (nxtChI2 - word_pos m4)
                      then (let m6 = enchant_trie_matcher_pushpath
                                       (enchant_trie_matcher_pushpath
                                          (m4\<lparr>word_pos := nxtChI2\<rparr>) key)
                                       (snd found);
                                m7 = enchant_trie_find_matches G cbfunc w (Some subtrie2) m6
                            in enchant_trie_matcher_poppath
                                 (enchant_trie_matcher_poppath m7 (length (snd found)))
                                 (length key))
                      else m4))"
    show "fm_post I m (enchant_trie_find_matches_cb G cbfunc w key sub m)"
    proof (cases "strncmp_eq key (drop (word_pos m) w)
                    (word_pos m + g_utf8_skip (c_byte w (word_pos m)) - word_pos m)")
      case True
      with Im show ?thesis
        by (subst enchant_trie_find_matches_cb.simps) (simp add: fm_post_def Let_def)
    next
      case False
      have res: "enchant_trie_find_matches_cb G cbfunc w key sub m = m5\<lparr>word_pos := oldPos\<rparr>"
        unfolding m5_def found_def key2_def m4_def m3_def oldPos_def m2_def m1_def nxtChI_def
        using False
        apply (subst enchant_trie_find_matches_cb.simps)
        apply (simp only: Let_def if_False)
        done
      have "\<forall>x \<in> set (trie_words sub). path m1 @ x \<in> S" "I (max_errors m1) (cbdata m1)"
        using W Im by (simp_all add: m1_def enchant_trie_matcher_pushpath_def)
      with 5(1)[of m1] have q2: "fm_post I m1 m2"
        by (simp add: m2_def)
      then have old: "oldPos = word_pos m"
        by (simp add: oldPos_def fm_post_def m1_def enchant_trie_matcher_pushpath_def)
      let ?m0 = "m2\<lparr>word_pos := nxtChI\<rparr>"
      have "\<forall>x \<in> set (trie_words sub). path ?m0 @ x \<in> S" "I (max_errors ?m0) (cbdata ?m0)"
        using W q2 by (simp_all add: fm_post_def m1_def enchant_trie_matcher_pushpath_def)
      with 5(1)[of ?m0] have q3: "fm_post I ?m0 m3"
        by (simp add: m3_def)
      with q2 have q4: "I (max_errors m4) (cbdata m4)" "path m4 = path m" "mode m4 = mode m"
        "num_errors m4 = num_errors m"
        by (simp_all add: m4_def fm_post_def m1_def enchant_trie_matcher_pushpath_def
            enchant_trie_matcher_poppath_def)
      have q5: "I (max_errors m5) (cbdata m5) \<and> path m5 = path m \<and> mode m5 = mode m \<and>
        num_errors m5 = num_errors m"
      proof (cases "fst found")
        case None
        with q4 show ?thesis by (simp add: m5_def)
      next
        case (Some subtrie2)
        define nxtChI2 where "nxtChI2 = word_pos m4 + g_utf8_skip (c_byte w (word_pos m4))"
        show ?thesis
        proof (cases "strncmp_eq key (drop (word_pos m4) w) (nxtChI2 - word_pos m4)")
          case False
          with Some q4 show ?thesis by (simp add: m5_def Let_def nxtChI2_def)
        next
          case True
          define m6 where "m6 = enchant_trie_matcher_pushpath
                                       (enchant_trie_matcher_pushpath
                                          (m4\<lparr>word_pos := nxtChI2\<rparr>) key)
                                       (snd found)"
          have sz: "size subtrie2 < size sub"
            using Some unfolding found_def by (rule get_subtrie_size)
          have "\<forall>x \<in> set (trie_words subtrie2). path m6 @ x \<in> S"
            using W trie_words_get_subtrie[of G sub "mode m4" key2 subtrie2] Some q4
            by (simp add: found_def m6_def enchant_trie_matcher_pushpath_def)
          moreover have "I (max_errors m6) (cbdata m6)"
            using q4 by (simp add: m6_def enchant_trie_matcher_pushpath_def)
          ultimately have "fm_post I m6 (enchant_trie_find_matches G cbfunc w (Some subtrie2) m6)"
            using 5(2)[OF sz, of m6] by simp
          with True Some q4 show ?thesis
            by (simp add: m5_def Let_def nxtChI2_def[symmetric] m6_def[symmetric] fm_post_def)
              (simp add: m6_def enchant_trie_matcher_pushpath_def enchant_trie_matcher_poppath_def)
        qed
      qed
      with old show ?thesis
        unfolding res by (simp add: fm_post_def)
    qed
  qed
qed

section \<open>A search with no error allowed\<close>

text \<open>
  Once the error count is over the budget a search returns at once, so the moves of the
  matcher that cost an error (skipping a scalar of the query, descending into a child
  without reading, transposing) leave a search with budget 0 unchanged: the search is
  the descent \<open>trie_lookup\<close>, and the callback is called once when it succeeds.
\<close>

lemma find_matches_over_budget:
  "num_errors m > max_errors m \<Longrightarrow> enchant_trie_find_matches G cbfunc w t m = m"
  by (cases t) (simp_all add: enchant_trie_find_matches.simps(2))

lemma poppath_pushpath:
  "enchant_trie_matcher_poppath (enchant_trie_matcher_pushpath m k) (length k) = m"
  by (simp add: enchant_trie_matcher_poppath_def enchant_trie_matcher_pushpath_def)

lemma find_matches_cb_over_budget:
  assumes "num_errors m > max_errors m"
  shows "enchant_trie_find_matches_cb G cbfunc w key sub m = m"
  using assms
  by (subst enchant_trie_find_matches_cb.simps)
    (simp add: Let_def find_matches_over_budget enchant_trie_matcher_poppath_def
      enchant_trie_matcher_pushpath_def split: option.splits)

lemma foreach_over_budget:
  "num_errors m > max_errors m \<Longrightarrow> g_hash_table_foreach_find_matches G cbfunc w tbl m = m"
  by (induction tbl) (simp_all add: find_matches_cb_over_budget)


lemma find_matches_exact_aux:
  "\<forall>m. word_pos m = pos \<longrightarrow> num_errors m = 0 \<longrightarrow> max_errors m = 0 \<longrightarrow>
     mode m = case_sensitive \<longrightarrow>
     enchant_trie_find_matches G enchant_pwl_check_cb w t m =
       m\<lparr>cbdata := cbdata m + (if trie_lookup t w pos then 1 else 0)\<rparr>"
proof (induction t w pos rule: trie_lookup.induct)
  case (1 w pos)
  show ?case by simp
next
  case (2 w pos)
  show ?case
    by (simp add: enchant_trie_find_matches.simps(2) enchant_pwl_check_cb_def)
next
  case (3 v subs w pos)
  show ?case
    by (simp add: enchant_trie_find_matches.simps(2) enchant_pwl_check_cb_def Let_def)
next
  case (4 w pos)
  show ?case
    by (simp add: enchant_trie_find_matches.simps(2) Let_def enchant_trie_get_subtrie_def
        find_matches_over_budget)
next
  case (5 tbl w pos)
  let ?k = "take (g_utf8_skip (c_byte w pos)) (drop pos w)"
  show ?case
  proof (intro allI impI)
    fix m :: "int EnchantTrieMatcher"
    assume m: "word_pos m = pos" "num_errors m = 0" "max_errors m = 0" "mode m = case_sensitive"
    have g: "enchant_trie_get_subtrie G (Branch tbl) case_sensitive k = (map_of tbl k, k)" for k
      by (simp add: enchant_trie_get_subtrie_def split: option.splits)
    show "enchant_trie_find_matches G enchant_pwl_check_cb w (Some (Branch tbl)) m =
        m\<lparr>cbdata := cbdata m + (if trie_lookup (Some (Branch tbl)) w pos then 1 else 0)\<rparr>"
    proof (cases "map_of tbl ?k")
      case None
      show ?thesis
        apply (subst enchant_trie_find_matches.simps(2))
        using m None
        apply (simp add: Let_def g find_matches_over_budget foreach_over_budget cong: if_cong)
        done
    next
      case (Some sub)
      have ih: "enchant_trie_find_matches G enchant_pwl_check_cb w (Some sub)
            (m\<lparr>path := path m @ ?k, word_pos := pos + g_utf8_skip (c_byte w pos)\<rparr>) =
          m\<lparr>path := path m @ ?k, word_pos := pos + g_utf8_skip (c_byte w pos),
            cbdata := cbdata m + (if trie_lookup (Some sub) w (pos + g_utf8_skip (c_byte w pos))
                                  then 1 else 0)\<rparr>"
        using 5[unfolded Some] m by simp
      show ?thesis
        apply (subst enchant_trie_find_matches.simps(2))
        using m Some
        apply (simp add: Let_def g find_matches_over_budget foreach_over_budget ih
            enchant_trie_matcher_pushpath_def enchant_trie_matcher_poppath_def cong: if_cong)
        done
    qed
  qed
qed

lemma contains_is_lookup:
  "enchant_pwl_contains G pwl word = trie_lookup (trie pwl) (g_utf8_normalize_nfd G word) 0"
  using find_matches_exact_aux[of 0 G "g_utf8_normalize_nfd G word" "trie pwl"]
  by (simp add: enchant_pwl_contains_def enchant_trie_matcher_init_def Let_def)

section \<open>The callback of the suggestion list\<close>

lemma suggest_cb_loc_Some:
  "suggest_cb_loc sl match errs i = Some loc \<Longrightarrow> i \<le> n_suggs sl \<Longrightarrow>
   i \<le> loc \<and> loc \<le> n_suggs sl \<and>
   (\<forall>j. i \<le> j \<and> j < loc \<longrightarrow> sugg_errs sl ! j \<le> errs \<and> suggs sl ! j \<noteq> Some match)"
proof (induction sl match errs i rule: suggest_cb_loc.induct)
  case (1 sl match errs loc')
  show ?case
  proof (cases "loc' < n_suggs sl")
    case False
    with 1(2,3) show ?thesis by (subst (asm) suggest_cb_loc.simps) auto
  next
    case True
    note lt = this
    show ?thesis
    proof (cases "sugg_errs sl ! loc' > errs")
      case True
      with lt 1(2) show ?thesis by (subst (asm) suggest_cb_loc.simps) auto
    next
      case False
      note le = this
      show ?thesis
      proof (cases "suggs sl ! loc' = Some match")
        case True
        with lt le 1(2) show ?thesis by (subst (asm) suggest_cb_loc.simps) auto
      next
        case False
        with lt le 1(2) have "suggest_cb_loc sl match errs (loc' + 1) = Some loc"
          by (subst (asm) suggest_cb_loc.simps) auto
        from 1(1)[OF lt le False this] lt
        have ih: "loc' + 1 \<le> loc \<and> loc \<le> n_suggs sl \<and>
          (\<forall>j. loc' + 1 \<le> j \<and> j < loc \<longrightarrow> sugg_errs sl ! j \<le> errs \<and> suggs sl ! j \<noteq> Some match)"
          by simp
        show ?thesis
        proof (intro conjI allI impI)
          fix j assume "loc' \<le> j \<and> j < loc"
          then show "sugg_errs sl ! j \<le> errs" using ih le by (cases "j = loc'") auto
        next
          fix j assume "loc' \<le> j \<and> j < loc"
          then show "suggs sl ! j \<noteq> Some match" using ih False by (cases "j = loc'") auto
        qed (use ih in auto)
      qed
    qed
  qed
qed

lemma suggest_cb_step:
  assumes ok: "sugg_list_ok sl"
    and loc: "suggest_cb_loc sl match errs 0 = Some loc"
    and lt: "loc < ENCHANT_PWL_MAX_SUGGS"
  defines "sl' \<equiv> sl\<lparr>suggs := (suggs sl)[loc := Some match],
                      sugg_errs := (sugg_errs sl)[loc := errs],
                      n_suggs := nat (int (n_suggs sl) + (1 - int (n_suggs sl - loc)))\<rparr>"
  shows "sugg_list_ok sl' \<and>
         sugg_entries sl' = take loc (sugg_entries sl) @ [(Some match, errs)] \<and>
         (\<forall>e \<in> set (take loc (sugg_entries sl)). snd e \<le> errs)"
proof -
  from suggest_cb_loc_Some[OF loc] have
    b: "loc \<le> n_suggs sl" and
    p: "\<And>j. j < loc \<Longrightarrow> sugg_errs sl ! j \<le> errs \<and> suggs sl ! j \<noteq> Some match"
    by auto
  from ok have len: "length (suggs sl) = ENCHANT_PWL_MAX_SUGGS + 1"
    "length (sugg_errs sl) = ENCHANT_PWL_MAX_SUGGS" "n_suggs sl \<le> ENCHANT_PWL_MAX_SUGGS"
    and so: "sorted (take (n_suggs sl) (sugg_errs sl))"
    and di: "distinct (take (n_suggs sl) (suggs sl))"
    and nn: "None \<notin> set (take (n_suggs sl) (suggs sl))"
    by (auto simp: sugg_list_ok_def)
  have n': "n_suggs sl' = Suc loc"
    using b by (simp add: sl'_def)
  have ts: "take (Suc loc) ((suggs sl)[loc := Some match]) = take loc (suggs sl) @ [Some match]"
    using lt len by (simp add: take_Suc_conv_app_nth)
  have te: "take (Suc loc) ((sugg_errs sl)[loc := errs]) = take loc (sugg_errs sl) @ [errs]"
    using lt len by (simp add: take_Suc_conv_app_nth)
  have all_e: "\<forall>x \<in> set (take loc (sugg_errs sl)). x \<le> errs"
    using p lt len by (auto simp: in_set_conv_nth)
  have all_s: "Some match \<notin> set (take loc (suggs sl))"
    using p lt len by (auto simp: in_set_conv_nth)
  have "sorted (take loc (take (n_suggs sl) (sugg_errs sl)))"
    using so by (rule sorted_wrt_take)
  then have s1: "sorted (take loc (sugg_errs sl) @ [errs])"
    using all_e b by (simp add: sorted_append min_def)
  have "distinct (take loc (take (n_suggs sl) (suggs sl)))"
    using di by (rule distinct_take)
  then have d1: "distinct (take loc (suggs sl) @ [Some match])"
    using all_s b by (simp add: min_def)
  have sub: "set (take loc (suggs sl)) \<subseteq> set (take (n_suggs sl) (suggs sl))"
    using b by (rule set_take_subset_set_take)
  have n1: "None \<notin> set (take loc (suggs sl) @ [Some match])"
    using nn sub by auto
  have z: "take loc (sugg_entries sl) = zip (take loc (suggs sl)) (take loc (sugg_errs sl))"
    using b by (simp add: sugg_entries_def take_zip min_def)
  have f: "suggs sl' = (suggs sl)[loc := Some match]" "sugg_errs sl' = (sugg_errs sl)[loc := errs]"
    by (simp_all add: sl'_def)
  have ent: "sugg_entries sl' = take loc (sugg_entries sl) @ [(Some match, errs)]"
    unfolding z using lt len by (simp add: sugg_entries_def n' f ts te)
  have bound: "\<forall>e \<in> set (take loc (sugg_entries sl)). snd e \<le> errs"
    unfolding z using all_e by (auto dest: set_zip_rightD)
  have "sugg_list_ok sl'"
    using lt len s1 d1 n1 by (simp add: sugg_list_ok_def n' f ts te)
  with ent bound show ?thesis by simp
qed

lemma suggest_cb_frame: "cb_frame enchant_pwl_suggest_cb"
  by (auto simp: cb_frame_def enchant_pwl_suggest_cb_def Let_def split: option.splits)

lemma suggest_cb_invariant:
  assumes ok: "sugg_list_ok (cbdata m)"
  shows "sugg_list_ok (cbdata (enchant_pwl_suggest_cb match m)) \<and>
     (sugg_entries (cbdata (enchant_pwl_suggest_cb match m)) = sugg_entries (cbdata m) \<or>
      (\<exists>loc. sugg_entries (cbdata (enchant_pwl_suggest_cb match m)) =
               take loc (sugg_entries (cbdata m)) @ [(Some match, num_errors m)] \<and>
             (\<forall>e \<in> set (take loc (sugg_entries (cbdata m))). snd e \<le> num_errors m)))"
proof (cases "suggest_cb_loc (cbdata m) match (num_errors m) 0")
  case None
  with ok show ?thesis
    by (simp add: enchant_pwl_suggest_cb_def Let_def)
next
  case (Some loc)
  show ?thesis
  proof (cases "loc \<ge> ENCHANT_PWL_MAX_SUGGS")
    case True
    with ok Some show ?thesis
      by (simp add: enchant_pwl_suggest_cb_def Let_def)
  next
    case False
    then have lt: "loc < ENCHANT_PWL_MAX_SUGGS" by simp
    from suggest_cb_step[OF ok Some lt] Some False show ?thesis
      by (auto simp: enchant_pwl_suggest_cb_def Let_def)
  qed
qed

lemma sugg_list_init_ok: "sugg_list_ok sugg_list_init"
  by (simp add: sugg_list_ok_def sugg_list_init_def ENCHANT_PWL_MAX_SUGGS_def)

lemma find_matches_keeps_sugg_list_ok:
  assumes "sugg_list_ok (cbdata m)"
  shows "sugg_list_ok (cbdata (enchant_trie_find_matches G enchant_pwl_suggest_cb w t m))"
  using find_matches_sound_aux(1)[where I = "\<lambda>e sl. sugg_list_ok sl" and S = UNIV
      and cbfunc = enchant_pwl_suggest_cb and t = t and m = m and G = G and w = w,
      OF suggest_cb_frame] assms suggest_cb_invariant
  by (simp add: fm_post_def)

lemma suggest_matches_ok: "sugg_list_ok (suggest_matches G pwl word max_dist)"
proof -
  have "sugg_list_ok (cbdata (snd (enchant_trie_matcher_init G word max_dist case_insensitive
      sugg_list_init)))"
    using sugg_list_init_ok by (simp add: enchant_trie_matcher_init_def Let_def)
  from find_matches_keeps_sugg_list_ok[OF this] show ?thesis
    by (simp add: suggest_matches_def Let_def sugg_list_ok_def take_update_cancel)
qed






section \<open>Adding a word to the list and its file\<close>

text \<open>
  Reading the file changes the trie and the table of words only: the file name stays.
  \<open>enchant_pwl_add\<close> appends to the file whatever the table of words says.
\<close>

lemma add_to_trie_filename:
  "filename (enchant_pwl_add_to_trie G pwl word) = filename pwl"
  by (simp add: enchant_pwl_add_to_trie_def Let_def)

lemma add_to_trie_known:
  "words_in_trie (enchant_pwl_add_to_trie G pwl word) (g_utf8_normalize_nfd G word) \<noteq> None"
  by (simp add: enchant_pwl_add_to_trie_def Let_def)

lemma add_to_trie_twice:
  "enchant_pwl_add_to_trie G (enchant_pwl_add_to_trie G pwl word) word =
   enchant_pwl_add_to_trie G pwl word"
  by (simp add: enchant_pwl_add_to_trie_def Let_def)

lemma read_lines_filename:
  "filename (read_lines G stream buffer n pwl) = filename pwl"
proof (induction G stream buffer n pwl rule: read_lines.induct)
  case (1 G stream buffer line_number pwl)
  show ?case
  proof (cases "stream = []")
    case True
    then show ?thesis by (simp add: read_lines.simps)
  next
    case False
    note ih1 = 1(1)[OF False refl refl refl refl refl refl]
    note ih2 = 1(2)[OF False refl refl refl refl refl refl _ refl]
    show ?thesis
      apply (subst read_lines.simps)
      apply (simp only: Let_def False if_False)
      apply (split if_split)
      apply (intro conjI impI)
       apply (erule ih1)
      apply (subst ih2)
       apply assumption
      apply (simp only: add_to_trie_filename if_distrib[of filename] if_cancel)
      done
  qed
qed

lemma refresh_filename:
  "filename (enchant_pwl_refresh_from_file G W pwl) = filename pwl"
  by (simp add: enchant_pwl_refresh_from_file_def read_lines_filename split: option.splits)

lemma pwl_add_file:
  assumes "filename pwl = Some name"
  shows "files (fst (enchant_pwl_add G W pwl w)) name =
     Some \<lparr>contents =
             (case files W name of None \<Rightarrow> []
              | Some f \<Rightarrow> if contents f \<noteq> [] \<and> last (contents f) \<noteq> CHR 0x0A
                         then contents f @ [CHR 0x0A] else contents f) @ w @ [CHR 0x0A],
           st_mtime = now W\<rparr>"
  using assms
  by (simp add: enchant_pwl_add_def Let_def add_to_trie_filename refresh_filename
      split: option.splits)

lemma pwl_add_filename:
  "filename (snd (enchant_pwl_add G W pwl w)) = filename pwl"
  by (simp add: enchant_pwl_add_def Let_def add_to_trie_filename refresh_filename
      split: option.splits)

lemma pwl_add_known:
  "words_in_trie (snd (enchant_pwl_add G W pwl w)) (g_utf8_normalize_nfd G w) \<noteq> None"
  by (cases "filename (enchant_pwl_add_to_trie G (enchant_pwl_refresh_from_file G W pwl) w)")
    (simp_all add: enchant_pwl_add_def Let_def add_to_trie_known del: not_None_eq)

lemma pwl_add_file_changed:
  assumes "filename pwl = Some name"
  shows "file_changed (snd (enchant_pwl_add G W pwl w)) =
     (case files W name of None \<Rightarrow> now W | Some f \<Rightarrow> st_mtime f)"
  using assms
  by (simp add: enchant_pwl_add_def Let_def add_to_trie_filename refresh_filename
      split: option.splits)

section \<open>Checking a word\<close>

text \<open>
  Claim C1. \<open>enchant_pwl_check\<close> reloads the list from its file and answers 0 (found)
  when the trie holds the normalized word. Otherwise a title-case word is found when
  the trie holds its lower-case form; a word that is not title-case but all-caps is
  found when the trie holds its lower-case form or its title-case form; every other
  word is not found (1). Holding a word is the descent \<open>trie_lookup\<close> on its normalized
  form. The all-caps test is made only for a word that is not title-case.
\<close>

theorem pwl_check_tries_case_variants:
  "fst (enchant_pwl_check G W pwl word) = enchant_pwl_refresh_from_file G W pwl \<and>
   snd (enchant_pwl_check G W pwl word) =
     (let t = trie (enchant_pwl_refresh_from_file G W pwl);
          has = (\<lambda>s. trie_lookup t (g_utf8_normalize_nfd G s) 0)
      in if has word then 0
         else if enchant_is_title_case G word
           then (if has (g_utf8_strdown G word) then 0 else 1)
         else if enchant_is_all_caps G word
           then (if has (g_utf8_strdown G word) \<or> has (enchant_utf8_strtitle G word)
                 then 0 else 1)
         else 1)"
  by (simp add: enchant_pwl_check_def Let_def contains_is_lookup)

text \<open>
  A word that is both title-case and all-caps, whose title-case form is in the list:
  \<open>A\<close> followed by U+0345, with \<open>A\<close> followed by U+03B9 in the list. The word is
  all-caps and the list holds its title-case form, and the answer is 1.
\<close>

theorem pwl_check_title_case_and_all_caps:
  "(let W = \<lparr>files = Map.empty, now = 0\<rparr>;
        pwl = snd (enchant_pwl_add glib_iota W enchant_pwl_init [CHR ''A'', CHR 0xCE, CHR 0xB9]);
        word = [CHR ''A'', CHR 0xCD, CHR 0x85]
    in enchant_is_title_case glib_iota word \<and> enchant_is_all_caps glib_iota word \<and>
       enchant_utf8_strtitle glib_iota word = [CHR ''A'', CHR 0xCE, CHR 0xB9] \<and>
       enchant_pwl_contains glib_iota (enchant_pwl_refresh_from_file glib_iota W pwl)
         (enchant_utf8_strtitle glib_iota word) \<and>
       snd (enchant_pwl_check glib_iota W pwl word) = 1)"
  by code_simp

section \<open>The edit distance is the table of the specification\<close>

lemma fold_upt_invariant:
  assumes "P a x"
    and "\<And>i y. a \<le> i \<Longrightarrow> i < b \<Longrightarrow> P i y \<Longrightarrow> P (Suc i) (f i y)"
    and "a \<le> b"
  shows "P b (fold f [a..<b] x)"
  using assms(3,2)
proof (induction b)
  case 0
  with assms(1) show ?case by simp
next
  case (Suc b)
  show ?case
  proof (cases "a = Suc b")
    case True
    with assms(1) show ?thesis by simp
  next
    case False
    with Suc.prems have le: "a \<le> b" by simp
    have "P b (fold f [a..<b] x)"
      by (rule Suc.IH[OF le]) (auto intro: Suc.prems(2))
    then have "P (Suc b) (f b (fold f [a..<b] x))"
      using le by (intro Suc.prems(2)) auto
    with le show ?thesis by simp
  qed
qed

lemma table_index_less: "i \<le> m \<Longrightarrow> j \<le> n \<Longrightarrow> i * Suc n + j < Suc m * Suc n"
proof -
  assume "i \<le> m" "j \<le> n"
  then have "i * Suc n + j < Suc i * Suc n" by simp
  also have "\<dots> \<le> Suc m * Suc n"
    using \<open>i \<le> m\<close> by (intro mult_le_mono1) simp
  finally show ?thesis .
qed

lemma table_index_inj:
  assumes "j \<le> n" "j' \<le> n" "i * Suc n + j = i' * Suc n + j'"
  shows "i = i' \<and> j = j'"
proof -
  have "(i * Suc n + j) div Suc n = i" "(i' * Suc n + j') div Suc n = i'"
    using assms(1,2) by (simp_all del: mult_Suc_right)
  with assms(3) have "i = i'" by simp
  with assms(3) show ?thesis by simp
qed

lemma dl_table_row0: "dl_table a b 0 j = int j"
  by (cases j) simp_all

lemma table_init:
  "table_inv a b
     (fold (\<lambda>i t. t[i := int i]) [0..<length b + 1]
        (fold (\<lambda>i t. t[i * (length b + 1) := int i]) [0..<length a + 1]
           (replicate ((length a + 1) * (length b + 1)) 0))) 1 1"
proof -
  let ?m = "length a" and ?n = "length b"
  let ?L = "Suc ?m * Suc ?n"
  let ?T0 = "replicate ((?m + 1) * (?n + 1)) (0 :: int)"
  let ?T1 = "fold (\<lambda>i t. t[i * (?n + 1) := int i]) [0..<?m + 1] ?T0"
  let ?T2 = "fold (\<lambda>i t. t[i := int i]) [0..<?n + 1] ?T1"
  have c: "length ?T1 = ?L \<and> (\<forall>i < ?m + 1. ?T1 ! (i * Suc ?n) = int i)"
  proof (rule fold_upt_invariant[where P = "\<lambda>k t. length t = ?L \<and> (\<forall>i < k. t ! (i * Suc ?n) = int i)"])
    show "length ?T0 = ?L \<and> (\<forall>i < 0. ?T0 ! (i * Suc ?n) = int i)" by simp
  next
    fix i y
    assume i: "0 \<le> i" "i < ?m + 1" and y: "length y = ?L \<and> (\<forall>i' < i. y ! (i' * Suc ?n) = int i')"
    have lt: "i * Suc ?n < ?L"
      using table_index_less[of i ?m 0 ?n] i by simp
    show "length (y[i * (?n + 1) := int i]) = ?L \<and>
          (\<forall>i' < Suc i. (y[i * (?n + 1) := int i]) ! (i' * Suc ?n) = int i')"
    proof (intro conjI allI impI)
      show "length (y[i * (?n + 1) := int i]) = ?L" using y by simp
    next
      fix i' assume "i' < Suc i"
      show "(y[i * (?n + 1) := int i]) ! (i' * Suc ?n) = int i'"
      proof (cases "i' = i")
        case True
        with lt y show ?thesis by simp
      next
        case False
        with \<open>i' < Suc i\<close> have "i' < i" by simp
        moreover from False have "i * Suc ?n \<noteq> i' * Suc ?n" by (simp del: mult_Suc_right)
        ultimately show ?thesis using y by simp
      qed
    qed
  qed simp
  have r: "length ?T2 = ?L \<and> (\<forall>i \<le> ?m. ?T2 ! (i * Suc ?n) = int i) \<and> (\<forall>j < ?n + 1. ?T2 ! j = int j)"
  proof (rule fold_upt_invariant[where P = "\<lambda>k t. length t = ?L \<and>
      (\<forall>i \<le> ?m. t ! (i * Suc ?n) = int i) \<and> (\<forall>j < k. t ! j = int j)"])
    show "length ?T1 = ?L \<and> (\<forall>i \<le> ?m. ?T1 ! (i * Suc ?n) = int i) \<and> (\<forall>j < 0. ?T1 ! j = int j)"
      using c by simp
  next
    fix k y
    assume k: "0 \<le> k" "k < ?n + 1"
      and y: "length y = ?L \<and> (\<forall>i \<le> ?m. y ! (i * Suc ?n) = int i) \<and> (\<forall>j < k. y ! j = int j)"
    have lt: "k < ?L"
      using table_index_less[of 0 ?m k ?n] k by simp
    show "length (y[k := int k]) = ?L \<and> (\<forall>i \<le> ?m. (y[k := int k]) ! (i * Suc ?n) = int i) \<and>
          (\<forall>j < Suc k. (y[k := int k]) ! j = int j)"
    proof (intro conjI allI impI)
      show "length (y[k := int k]) = ?L" using y by simp
    next
      fix i assume i: "i \<le> ?m"
      show "(y[k := int k]) ! (i * Suc ?n) = int i"
      proof (cases "i * Suc ?n = k")
        case True
        with k have "i = 0" by (cases i) auto
        with True lt y show ?thesis by simp
      next
        case False
        with y i show ?thesis by simp
      qed
    next
      fix j assume "j < Suc k"
      with lt y show "(y[k := int k]) ! j = int j"
        by (cases "j = k") auto
    qed
  qed simp
  show ?thesis
    unfolding table_inv_def table_good_def
  proof (intro conjI allI impI)
    show "length ?T2 = ?L" using r by simp
  next
    fix i' j'
    assume h: "i' \<le> ?m \<and> j' \<le> ?n \<and> (i' < 1 \<or> j' = 0 \<or> i' = 1 \<and> j' < 1)"
    show "?T2 ! (i' * Suc ?n + j') = dl_table a b i' j'"
    proof (cases "j' = 0")
      case True
      with h r show ?thesis by simp
    next
      case False
      with h have "i' = 0" by auto
      with h r show ?thesis by (simp add: dl_table_row0)
    qed
  qed
qed


lemma table_cell_step:
  assumes inv: "table_inv a b t i j"
    and i: "1 \<le> i" "i \<le> length a" and j: "1 \<le> j" "j \<le> length b"
  shows "table_inv a b (edit_dist_cell a b i j t) i (Suc j)"
proof -
  let ?n = "length b"
  obtain i0 j0 where ij: "i = Suc i0" "j = Suc j0"
    using i j by (cases i; cases j) auto
  from inv have len: "length t = Suc (length a) * Suc ?n"
    and good: "\<And>i' j'. i' \<le> length a \<Longrightarrow> j' \<le> ?n \<Longrightarrow> i' < i \<or> j' = 0 \<or> (i' = i \<and> j' < j) \<Longrightarrow>
                 t ! (i' * Suc ?n + j') = dl_table a b i' j'"
    by (auto simp: table_inv_def table_good_def)
  have g1: "t ! (i0 * Suc ?n + j) = dl_table a b i0 j"
    using good[of i0 j] i j ij by simp
  have g2: "t ! (i * Suc ?n + j0) = dl_table a b i j0"
    using good[of i j0] i j ij by simp
  have g3: "t ! (i0 * Suc ?n + j0) = dl_table a b i0 j0"
    using good[of i0 j0] i j ij by simp
  have g4: "t ! ((i0 - 1) * Suc ?n + (j0 - 1)) = dl_table a b (i0 - 1) (j0 - 1)"
  proof (rule good)
    show "i0 - 1 \<le> length a" using i ij by arith
    show "j0 - 1 \<le> ?n" using j ij by arith
    show "i0 - 1 < i \<or> j0 - 1 = 0 \<or> (i0 - 1 = i \<and> j0 - 1 < j)" using ij by arith
  qed
  define cost :: int where "cost = (if a ! i0 = b ! j0 then 0 else 1)"
  define A where "A = dl_table a b i0 j + 1"
  define B where "B = dl_table a b i j0 + 1"
  define E where "E = dl_table a b i0 j0 + cost"
  define D where "D = dl_table a b (i0 - 1) (j0 - 1) + cost"
  define C where "C = (2 \<le> Suc i0 \<and> 2 \<le> Suc j0 \<and> a ! i0 = b ! (j0 - 1) \<and> a ! (i0 - 1) = b ! j0)"
  define v where "v = (if C then min (min (min A B) E) D else min (min A B) E)"
  have r1: "t ! ((i - 1) * (length b + 1) + j) + 1 = A"
    using g1 ij by (simp add: A_def)
  have c: "(if a ! (i - 1) \<noteq> b ! (j - 1) then 1 else 0) = cost"
    using ij by (simp add: cost_def)
  have r2: "t ! ((i - 2) * (length b + 1) + (j - 2)) + cost = D"
    using g4 ij by (simp add: D_def)
  have r3: "t ! (i * (length b + 1) + (j - 1)) + 1 = B"
    using g2 ij by (simp add: B_def)
  have r4: "t ! ((i - 1) * (length b + 1) + (j - 1)) + cost = E"
    using g3 ij by (simp add: E_def)
  have cond: "(i > 1 \<and> j > 1 \<and> a ! (i - 1) = b ! (j - 2) \<and> a ! (i - 2) = b ! (j - 1)) = C"
    using ij by (auto simp: C_def)
  have cell0: "edit_dist_cell a b i j t =
      t[i * (length b + 1) + j := min (min (if C then min A D else A) B) E]"
    unfolding edit_dist_cell_def Let_def c r1 r2 r3 r4 cond ..
  have "min (min (if C then min A D else A) B) E = v"
  proof (cases C)
    case True
    have "min (min (min A D) B) E = min (min (min A B) E) D"
      by (simp only: min.assoc min.left_commute min.commute)
    with True show ?thesis by (simp only: v_def if_True)
  next
    case False
    then show ?thesis by (simp only: v_def if_False)
  qed
  then have cell: "edit_dist_cell a b i j t = t[i * Suc ?n + j := v]"
    unfolding cell0 by simp
  have v: "v = dl_table a b i j"
    unfolding v_def A_def B_def E_def D_def C_def cost_def ij
    by (simp only: dl_table.simps Let_def)
  have idx: "i * Suc ?n + j < length t"
    unfolding len using i j by (intro table_index_less) auto
  show ?thesis
    unfolding table_inv_def table_good_def cell
  proof (intro conjI allI impI)
    show "length (t[i * Suc ?n + j := v]) = Suc (length a) * Suc ?n"
      using len by simp
  next
    fix i' j'
    assume h: "i' \<le> length a \<and> j' \<le> ?n \<and> (i' < i \<or> j' = 0 \<or> i' = i \<and> j' < Suc j)"
    show "(t[i * Suc ?n + j := v]) ! (i' * Suc ?n + j') = dl_table a b i' j'"
    proof (cases "i' = i \<and> j' = j")
      case True
      with idx v show ?thesis by simp
    next
      case False
      then have ne: "i * Suc ?n + j \<noteq> i' * Suc ?n + j'"
        using table_index_inj[of j ?n j' i i'] h j by auto
      from False h j have "i' < i \<or> j' = 0 \<or> (i' = i \<and> j' < j)"
        by auto
      with h good[of i' j'] ne show ?thesis by simp
    qed
  qed
qed

lemma table_row:
  assumes inv: "table_inv a b t i 1" and i: "1 \<le> i" "i \<le> length a"
  shows "table_inv a b (fold (\<lambda>j t'. edit_dist_cell a b i j t') [1..<length b + 1] t) (Suc i) 1"
proof -
  have "table_inv a b (fold (\<lambda>j t'. edit_dist_cell a b i j t') [1..<length b + 1] t) i (length b + 1)"
  proof (rule fold_upt_invariant[where P = "\<lambda>k t'. table_inv a b t' i k"])
    show "table_inv a b t i 1" by (rule inv)
  next
    fix k y
    assume "1 \<le> k" "k < length b + 1" "table_inv a b y i k"
    then show "table_inv a b (edit_dist_cell a b i k y) i (Suc k)"
      using i by (intro table_cell_step) auto
  qed simp
  then have len: "length (fold (\<lambda>j t'. edit_dist_cell a b i j t') [1..<length b + 1] t) =
      Suc (length a) * Suc (length b)"
    and good: "\<And>i' j'. i' \<le> length a \<Longrightarrow> j' \<le> length b \<Longrightarrow>
        i' < i \<or> j' = 0 \<or> (i' = i \<and> j' < length b + 1) \<Longrightarrow>
        table_good a b (fold (\<lambda>j t'. edit_dist_cell a b i j t') [1..<length b + 1] t) i' j'"
    unfolding table_inv_def by blast+
  show ?thesis
    unfolding table_inv_def
  proof (intro conjI allI impI)
    fix i' j'
    assume h: "i' \<le> length a \<and> j' \<le> length b \<and> (i' < Suc i \<or> j' = 0 \<or> i' = Suc i \<and> j' < 1)"
    then have "i' < i \<or> j' = 0 \<or> (i' = i \<and> j' < length b + 1)"
      by arith
    with h show "table_good a b (fold (\<lambda>j t'. edit_dist_cell a b i j t') [1..<length b + 1] t) i' j'"
      by (intro good) auto
  qed (rule len)
qed

lemma table_filled:
  "table_inv a b (edit_dist_table a b) (length a + 1) 1"
proof -
  have "table_inv a b
     (fold (\<lambda>i t. fold (\<lambda>j t'. edit_dist_cell a b i j t') [1..<length b + 1] t) [1..<length a + 1]
        (fold (\<lambda>i t. t[i := int i]) [0..<length b + 1]
          (fold (\<lambda>i t. t[i * (length b + 1) := int i]) [0..<length a + 1]
             (replicate ((length a + 1) * (length b + 1)) 0)))) (length a + 1) 1"
  proof (rule fold_upt_invariant[where P = "\<lambda>k t. table_inv a b t k 1"])
    show "table_inv a b
     (fold (\<lambda>i t. t[i := int i]) [0..<length b + 1]
          (fold (\<lambda>i t. t[i * (length b + 1) := int i]) [0..<length a + 1]
             (replicate ((length a + 1) * (length b + 1)) 0))) 1 1"
      by (rule table_init)
  next
    fix i y
    assume "1 \<le> i" "i < length a + 1" "table_inv a b y i 1"
    then show "table_inv a b (fold (\<lambda>j t'. edit_dist_cell a b i j t') [1..<length b + 1] y) (Suc i) 1"
      by (intro table_row) auto
  qed simp
  then show ?thesis
    by (simp add: edit_dist_table_def Let_def)
qed

lemma edit_dist_ucs4_dl_table:
  "edit_dist_ucs4 a b = dl_table a b (length a) (length b)"
  using table_filled[of a b]
  by (simp add: table_inv_def table_good_def edit_dist_ucs4_def)

text \<open>
  Claim C3. \<open>edit_dist\<close> decodes its arguments to scalars and returns the cell
  \<open>d[m][n]\<close> of the table with \<open>d[i][0] = i\<close>, \<open>d[0][j] = j\<close> and the minimum of
  \<open>d[i-1][j] + 1\<close>, \<open>d[i][j-1] + 1\<close> and \<open>d[i-1][j-1] + cost\<close>, and of
  \<open>d[i-2][j-2] + cost\<close> where the last two scalars are transposed; \<open>m\<close> and \<open>n\<close> are the
  numbers of scalars, not of bytes.
\<close>

theorem edit_dist_is_damerau_levenshtein_table:
  "edit_dist utf8word1 utf8word2 =
     dl_table (g_utf8_to_ucs4_fast utf8word1) (g_utf8_to_ucs4_fast utf8word2)
       (g_utf8_strlen utf8word1) (g_utf8_strlen utf8word2)"
  by (simp add: edit_dist_def edit_dist_ucs4_dl_table g_utf8_strlen_def g_utf8_to_ucs4_fast_def)

text \<open>
  A transposition costs one error, as a substitution does, and a scalar of two bytes
  counts once.
\<close>

lemma edit_dist_examples:
  "edit_dist ''ab'' ''ba'' = 1"
  "edit_dist ''ab'' ''ac'' = 1"
  "edit_dist [CHR 0xC3, CHR 0xB8] ''o'' = 1"
  "edit_dist ''hello'' ''helo'' = 1"
  by code_simp+

section \<open>The distance of joined strings\<close>













section \<open>The search accounts for its errors\<close>





lemma utf8_whole_Nil [simp]: "utf8_whole []"
  by (simp add: utf8_whole_def)















lemma chunk_past_end:
  "length w \<le> pos \<Longrightarrow> take n (drop pos w) = []"
  by simp


















section \<open>What a suggestion is\<close>




section \<open>The end-of-string node with query input left\<close>

text \<open>
  What the code does at the end-of-string node: the number of bytes left in the query,
  \<open>strlen(word) - word_pos\<close>, is added to the error count, and the path is emitted when
  the sum is within the budget.
\<close>

lemma find_matches_eos:
  "enchant_trie_find_matches G cbfunc w (Some EOSTrie) m =
     (if num_errors m > max_errors m then m
      else if length w > word_pos m
        then (if num_errors m + int (length w) - int (word_pos m) \<le> max_errors m
              then (cbfunc (path m)
                      (m\<lparr>num_errors := num_errors m + int (length w) - int (word_pos m)\<rparr>))
                   \<lparr>num_errors := num_errors m\<rparr>
              else m)
        else (cbfunc (path m) m)\<lparr>num_errors := num_errors m\<rparr>)"
  by (simp add: enchant_trie_find_matches.simps(2) Let_def)

text \<open>
  Claim C4 at a query with a scalar of two bytes. The query is \<open>a\<close> followed by U+00F8,
  the matcher stands behind \<open>a\<close> with one error made and a budget of two. One scalar is
  left, so the claim has the path emitted with two errors; the code adds the two bytes
  and emits nothing. A leaf with the empty value, in the same state, counts the scalar
  with \<open>edit_dist\<close> and emits the path with two errors.

  The same at a state that the search of \<open>enchant_pwl_suggest\<close> reaches: with \<open>a\<close> and
  \<open>ab\<close> in the list and the query \<open>a\<close>, \<open>x\<close>, U+00F8, the end-of-string node under
  \<open>a\<close> is visited behind \<open>x\<close> (position 2) with one error made, when the budget has
  been lowered to two.
\<close>

theorem eos_counts_remaining_bytes:
  "g_utf8_strlen (drop 1 [CHR ''a'', CHR 0xC3, CHR 0xB8]) = 1 \<and>
   cbdata (enchant_trie_find_matches glib_ascii record_cb [CHR ''a'', CHR 0xC3, CHR 0xB8]
     (Some EOSTrie)
     \<lparr>num_errors = 1, max_errors = 2, word_pos = 1, path = ''a'', mode = case_sensitive,
      cbdata = []\<rparr>) = [] \<and>
   cbdata (enchant_trie_find_matches glib_ascii record_cb [CHR ''a'', CHR 0xC3, CHR 0xB8]
     (Some (Leaf []))
     \<lparr>num_errors = 1, max_errors = 2, word_pos = 1, path = ''a'', mode = case_sensitive,
      cbdata = []\<rparr>) = [(''a'', 2)] \<and>
   g_utf8_strlen (drop 2 [CHR ''a'', CHR ''x'', CHR 0xC3, CHR 0xB8]) = 1 \<and>
   cbdata (enchant_trie_find_matches glib_ascii record_cb [CHR ''a'', CHR ''x'', CHR 0xC3, CHR 0xB8]
     (Some EOSTrie)
     \<lparr>num_errors = 1, max_errors = 2, word_pos = 2, path = ''a'', mode = case_insensitive,
      cbdata = []\<rparr>) = [] \<and>
   cbdata (enchant_trie_find_matches glib_ascii record_cb [CHR ''a'', CHR ''x'', CHR 0xC3, CHR 0xB8]
     (Some (Leaf []))
     \<lparr>num_errors = 1, max_errors = 2, word_pos = 2, path = ''a'', mode = case_insensitive,
      cbdata = []\<rparr>) = [(''a'', 2)]"
  by code_simp

section \<open>Inserting the word a leaf already stores\<close>

lemma insert_stored_word_chain: "enchant_trie_insert (Some (Node (Some v) old)) v = eos_chain v"
proof (induction v arbitrary: old rule: length_induct)
  case (1 v)
  show ?case
  proof (cases v)
    case Nil
    then show ?thesis by (simp add: enchant_trie_insert.simps(5) AList.update.simps)
  next
    case (Cons c cs)
    let ?n = "g_utf8_skip (of_char c)"
    have "length (drop ?n (c # cs)) < length v"
      using Cons skip_positive[of "of_char c"] by simp
    with 1 have ih: "enchant_trie_insert (Some (Node (Some (drop ?n (c # cs))) None)) (drop ?n (c # cs)) =
        eos_chain (drop ?n (c # cs))"
      by blast
    show ?thesis
      using ih unfolding Cons
      by (simp add: enchant_trie_insert.simps(5)[of "c # cs"] Let_def c_byte_def AList.update.simps)
  qed
qed

lemma trie_words_eos_chain: "trie_words (eos_chain v) = [v]"
proof (induction v rule: length_induct)
  case (1 v)
  show ?case
  proof (cases v)
    case Nil
    then show ?thesis by simp
  next
    case (Cons c cs)
    let ?n = "g_utf8_skip (of_char c)"
    have "length (drop ?n (c # cs)) < length v"
      using Cons skip_positive[of "of_char c"] by simp
    with 1 have "trie_words (eos_chain (drop ?n (c # cs))) = [drop ?n (c # cs)]"
      by blast
    then show ?thesis
      unfolding Cons by (simp del: append_take_drop_id add: append_take_drop_id[of ?n "c # cs"])
  qed
qed

text \<open>
  Claim C5, as the code has it. \<open>enchant_trie_insert\<close> never compares the word with
  the value of the node: a leaf that stores \<open>v\<close> becomes, on inserting \<open>v\<close>, a chain of
  one-entry branches that spells \<open>v\<close> and ends in the end-of-string node. The chain
  stores the same single word as the leaf did.
\<close>

theorem insert_stored_word_builds_chain:
  "enchant_trie_insert (Some (Leaf v)) v = eos_chain v \<and>
   trie_words (enchant_trie_insert (Some (Leaf v)) v) = trie_words (Leaf v)"
proof -
  have "trie_words (Leaf v) = [v]"
    by simp
  then show ?thesis
    by (simp only: insert_stored_word_chain trie_words_eos_chain)
qed

text \<open>The claim as stated fails already for a word of one letter.\<close>

theorem insert_stored_word_not_noop:
  "enchant_trie_insert (Some (Leaf ''a'')) ''a'' = Branch [(''a'', Branch [([], EOSTrie)])] \<and>
   enchant_trie_insert (Some (Leaf ''a'')) ''a'' \<noteq> Leaf ''a''"
  by code_simp

section \<open>Branches with a single child\<close>

lemma insert_leaf_unfold:
  "enchant_trie_insert (Some (Node (Some v) old)) w =
     (if v = [] then
        (if w = [] then Node None (Some [([], EOSTrie)])
         else Node None (Some [([], EOSTrie),
                (take (g_utf8_skip (c_byte w 0)) w, Node (Some (drop (g_utf8_skip (c_byte w 0)) w)) None)]))
      else if w = [] then
        Node None (Some [(take (g_utf8_skip (c_byte v 0)) v, Node (Some (drop (g_utf8_skip (c_byte v 0)) v)) None),
                         ([], EOSTrie)])
      else if take (g_utf8_skip (c_byte v 0)) v = take (g_utf8_skip (c_byte w 0)) w then
        Node None (Some [(take (g_utf8_skip (c_byte v 0)) v,
           enchant_trie_insert (Some (Node (Some (drop (g_utf8_skip (c_byte v 0)) v)) None))
             (drop (g_utf8_skip (c_byte w 0)) w))])
      else
        Node None (Some [(take (g_utf8_skip (c_byte v 0)) v, Node (Some (drop (g_utf8_skip (c_byte v 0)) v)) None),
                         (take (g_utf8_skip (c_byte w 0)) w, Node (Some (drop (g_utf8_skip (c_byte w 0)) w)) None)]))"
proof -
  have nz: "x \<noteq> [] \<longrightarrow> take (g_utf8_skip (c_byte x 0)) x \<noteq> []" for x
    using skip_positive[of "c_byte x 0"] by (cases x) auto
  have "enchant_trie_insert (Some (Node (Some v) old)) w =
      enchant_trie_insert (Some (enchant_trie_insert (Some (Node None (Some []))) v)) w"
    by (rule enchant_trie_insert.simps(5))
  also have "enchant_trie_insert (Some (Node None (Some []))) v =
     (if v = [] then Node None (Some [([], EOSTrie)])
      else Node None (Some [(take (g_utf8_skip (c_byte v 0)) v,
                             Node (Some (drop (g_utf8_skip (c_byte v 0)) v)) None)]))"
    by (simp add: Let_def AList.update.simps)
  finally show ?thesis
    by (simp add: Let_def AList.update.simps)
qed


lemma insert_built:
  "(case t of None \<Rightarrow> True | Some x \<Rightarrow> built_node x) \<longrightarrow>
     built_node (enchant_trie_insert t w) \<and>
     (t \<noteq> None \<longrightarrow> trie_value (enchant_trie_insert t w) = None)"
proof (induction w arbitrary: t rule: length_induct)
  case (1 w)
  note IH = 1[rule_format]
  show ?case
  proof (intro impI)
    assume pre: "case t of None \<Rightarrow> True | Some x \<Rightarrow> built_node x"
    show "built_node (enchant_trie_insert t w) \<and>
          (t \<noteq> None \<longrightarrow> trie_value (enchant_trie_insert t w) = None)"
    proof (cases t)
      case None
      then show ?thesis by simp
    next
      case (Some x)
      with pre have bx: "built_node x" by simp
      then obtain v subs where x: "x = Node v subs"
        by (cases x) auto
      show ?thesis
      proof (cases v)
        case (Some val)
        with bx x have subs: "subs = None"
          by (cases subs) auto
        let ?k1 = "take (g_utf8_skip (c_byte val 0)) val"
        let ?r1 = "drop (g_utf8_skip (c_byte val 0)) val"
        let ?k2 = "take (g_utf8_skip (c_byte w 0)) w"
        let ?r2 = "drop (g_utf8_skip (c_byte w 0)) w"
        have inner: "built_node (enchant_trie_insert (Some (Node (Some ?r1) None)) ?r2) \<and>
            trie_value (enchant_trie_insert (Some (Node (Some ?r1) None)) ?r2) = None"
          if "w \<noteq> []"
          using IH[of ?r2 "Some (Node (Some ?r1) None)"] drop_skip_shorter[OF that] by simp
        show ?thesis
          unfolding \<open>t = Some x\<close> x Some subs
          using inner
          by (subst (1 2) insert_leaf_unfold) (auto simp: single_leaf_child_def take_skip_nonempty)
      next
        case None
        with bx x obtain tbl where subs: "subs = Some tbl"
          by (cases subs) auto
        from bx x None subs have ne: "tbl \<noteq> []" and nsl: "\<not> single_leaf_child tbl"
          and ents: "list_all (\<lambda>kv. if fst kv = [] then snd kv = EOSTrie else built_node (snd kv)) tbl"
          by simp_all
        show ?thesis
        proof (cases "w = []")
          case True
          have e: "list_all (\<lambda>kv. if fst kv = [] then snd kv = EOSTrie else built_node (snd kv))
              (AList.update [] EOSTrie tbl)"
            using ents by (rule list_all_update) simp
          have s: "\<not> single_leaf_child (AList.update [] EOSTrie tbl)"
            using update_single[of "[]" EOSTrie tbl] by (auto simp: single_leaf_child_def)
          have n: "AList.update [] EOSTrie tbl \<noteq> []"
            by (cases tbl) (auto simp: AList.update.simps)
          from e s n show ?thesis
            unfolding \<open>t = Some x\<close> x None subs True by simp
        next
          case False
          let ?k = "take (g_utf8_skip (c_byte w 0)) w"
          let ?r = "drop (g_utf8_skip (c_byte w 0)) w"
          let ?c' = "enchant_trie_insert (map_of tbl ?k) ?r"
          have k: "?k \<noteq> []"
            using False by (rule take_skip_nonempty)
          have prec: "case map_of tbl ?k of None \<Rightarrow> True | Some y \<Rightarrow> built_node y"
          proof (cases "map_of tbl ?k")
            case (Some y)
            from map_of_list_all[OF Some ents] k show ?thesis
              using Some by simp
          qed simp
          from IH[of ?r "map_of tbl ?k"] drop_skip_shorter[OF False] prec
          have c': "built_node ?c'" and cv: "map_of tbl ?k \<noteq> None \<Longrightarrow> trie_value ?c' = None"
            by auto
          have e: "list_all (\<lambda>kv. if fst kv = [] then snd kv = EOSTrie else built_node (snd kv))
              (AList.update ?k ?c' tbl)"
            using ents by (rule list_all_update) (use k c' in simp)
          have s: "\<not> single_leaf_child (AList.update ?k ?c' tbl)"
          proof
            assume a: "single_leaf_child (AList.update ?k ?c' tbl)"
            then have "length (AList.update ?k ?c' tbl) = 1"
              by (simp add: single_leaf_child_def)
            from update_single[OF this] ne obtain y where
              u: "AList.update ?k ?c' tbl = [(?k, ?c')]" and tb: "tbl = [(?k, y)]"
              by auto
            from tb have "map_of tbl ?k \<noteq> None" by simp
            from cv[OF this] a u show False
              by (simp add: single_leaf_child_def)
          qed
          have n: "AList.update ?k ?c' tbl \<noteq> []"
            by (cases tbl) (auto simp: AList.update.simps)
          from e s n False show ?thesis
            unfolding \<open>t = Some x\<close> x None subs by (simp add: Let_def)
        qed
      qed
    qed
  qed
qed


lemma built_node_no_single_leaf: "built_node t \<Longrightarrow> no_single_leaf_branch t"
proof (induction t)
  case EOSTrie
  then show ?case by simp
next
  case (Node v subs)
  show ?case
  proof (cases subs)
    case None
    then show ?thesis by simp
  next
    case (Some tbl)
    with Node.prems have ns: "\<not> single_leaf_child tbl"
      and ents: "list_all (\<lambda>kv. if fst kv = [] then snd kv = EOSTrie else built_node (snd kv)) tbl"
      by simp_all
    have "no_single_leaf_branch (snd kv)" if "kv \<in> set tbl" for kv
    proof (cases "fst kv = []")
      case True
      with ents that show ?thesis by (auto simp: list_all_iff)
    next
      case False
      with ents that have "built_node (snd kv)" by (auto simp: list_all_iff)
      with Node.IH[of tbl kv "snd kv"] that Some show ?thesis
        by (cases kv) auto
    qed
    with ns Some show ?thesis by (simp add: list_all_iff)
  qed
qed

lemma trie_of_words_built:
  "case trie_of_words ws of None \<Rightarrow> True | Some x \<Rightarrow> built_node x"
proof -
  have "(case t of None \<Rightarrow> True | Some x \<Rightarrow> built_node x) \<Longrightarrow>
        (case fold (\<lambda>w t. Some (enchant_trie_insert t w)) ws t of None \<Rightarrow> True | Some x \<Rightarrow> built_node x)"
    for t
  proof (induction ws arbitrary: t)
    case Nil
    then show ?case by simp
  next
    case (Cons w ws)
    from Cons.prems insert_built[of t w] have "built_node (enchant_trie_insert t w)"
      by simp
    then show ?case
      using Cons.IH[of "Some (enchant_trie_insert t w)"] by simp
  qed
  from this[of None] show ?thesis
    by (simp add: trie_of_words_def)
qed

lemma collapse_no_single_leaf:
  assumes "list_all (\<lambda>kv. no_single_leaf_branch (snd kv)) tbl"
  shows "no_single_leaf_branch (trie_collapse tbl)"
  using assms
  by (auto simp: trie_collapse_def single_leaf_child_def split: option.splits)

lemma remove_keeps_no_single_leaf:
  "(case t of None \<Rightarrow> True | Some x \<Rightarrow> no_single_leaf_branch x) \<Longrightarrow>
   enchant_trie_remove t w = Inr t' \<Longrightarrow>
   (case t' of None \<Rightarrow> True | Some x \<Rightarrow> no_single_leaf_branch x)"
proof (induction t w arbitrary: t' rule: enchant_trie_remove.induct)
  case (1 word)
  then show ?case by auto
next
  case (2 word)
  then show ?case by auto
next
  case (3 word)
  then show ?case by auto
next
  case (4 tbl word)
  from 4(2) have ch: "list_all (\<lambda>kv. no_single_leaf_branch (snd kv)) tbl"
    by simp
  show ?case
  proof (cases "word = []")
    case True
    with 4(3) have "t' = Some (trie_collapse (AList.delete [] tbl))"
      by simp
    with collapse_no_single_leaf[OF list_all_delete[OF ch]] show ?thesis
      by simp
  next
    case False
    let ?k = "take (g_utf8_skip (c_byte word 0)) word"
    let ?r = "drop (g_utf8_skip (c_byte word 0)) word"
    from 4(3) False obtain s where
      r: "enchant_trie_remove (map_of tbl ?k) ?r = Inr (Some s)" and
      t': "t' = Some (trie_collapse (if trie_is_empty s then AList.delete ?k tbl
                                    else AList.update ?k s tbl))"
      by (auto simp: Let_def split: sum.splits option.splits)
    have "case map_of tbl ?k of None \<Rightarrow> True | Some x \<Rightarrow> no_single_leaf_branch x"
    proof (cases "map_of tbl ?k")
      case (Some y)
      with map_of_list_all[OF Some ch] show ?thesis by simp
    qed simp
    from 4(1)[OF False refl refl refl this r] have s: "no_single_leaf_branch s"
      by simp
    have "list_all (\<lambda>kv. no_single_leaf_branch (snd kv))
        (if trie_is_empty s then AList.delete ?k tbl else AList.update ?k s tbl)"
      using ch s by (auto intro: list_all_delete list_all_update)
    from collapse_no_single_leaf[OF this] t' show ?thesis
      by simp
  qed
next
  case (5 v subs word)
  then show ?case by (auto split: if_splits)
qed

text \<open>
  Claim C6, as the code has it. A branch can have a single child. In every trie built
  from the empty trie by insertions no table has a leaf as its only entry, and
  \<open>enchant_trie_remove\<close> keeps that property: a branch on the path of the removal that is
  left with a leaf as its only child is replaced by a leaf that holds the key followed
  by the value of the child.
\<close>

theorem no_branch_with_single_leaf_child:
  "(case trie_of_words ws of None \<Rightarrow> True | Some x \<Rightarrow> no_single_leaf_branch x) \<and>
   (no_single_leaf_branch t \<longrightarrow> enchant_trie_remove (Some t) w = Inr (Some t') \<longrightarrow>
      no_single_leaf_branch t')"
proof (intro conjI impI)
  show "case trie_of_words ws of None \<Rightarrow> True | Some x \<Rightarrow> no_single_leaf_branch x"
    using trie_of_words_built[of ws]
    by (auto split: option.splits intro: built_node_no_single_leaf)
next
  assume "no_single_leaf_branch t" "enchant_trie_remove (Some t) w = Inr (Some t')"
  with remove_keeps_no_single_leaf[of "Some t" w "Some t'"] show "no_single_leaf_branch t'"
    by simp
qed

theorem no_branch_with_single_leaf_child_witness:
  "trie_of_words [''abc'', ''abd''] =
     Some (Branch [(''a'', Branch [(''b'', Branch [(''c'', Leaf []), (''d'', Leaf [])])])]) \<and>
   no_single_leaf_branch
     (Branch [(''a'', Branch [(''b'', Branch [(''c'', Leaf []), (''d'', Leaf [])])])]) \<and>
   enchant_trie_remove
     (Some (Branch [(''a'', Branch [(''b'', Branch [(''c'', Leaf []), (''d'', Leaf [])])])]))
     ''abd'' = Inr (Some (Leaf ''abc'')) \<and>
   no_single_leaf_branch (Leaf ''abc'')"
proof -
  let ?t = "Branch [(''a'', Branch [(''b'', Branch [(''c'', Leaf []), (''d'', Leaf [])])])]"
  have b: "trie_of_words [''abc'', ''abd''] = Some ?t"
    by code_simp
  have r: "enchant_trie_remove (Some ?t) ''abd'' = Inr (Some (Leaf ''abc''))"
    by code_simp
  from no_branch_with_single_leaf_child[of "[''abc'', ''abd'']" ?t "''abd''" "Leaf ''abc''"] b r
  show ?thesis by simp
qed

text \<open>
  The claim as stated fails. After the insertion of \<open>a\<close> and \<open>ab\<close> the root has one
  child. And a removal can leave an empty table behind, which is not deleted; the next
  insertion into it gives a branch whose only child is a leaf.
\<close>

theorem branch_with_one_child:
  "trie_of_words [''a'', ''ab''] =
     Some (Branch [(''a'', Branch [([], EOSTrie), (''b'', Leaf [])])]) \<and>
   \<not> branches_have_two_children (Branch [(''a'', Branch [([], EOSTrie), (''b'', Leaf [])])]) \<and>
   enchant_trie_remove (Some (Branch [(''a'', Branch [([], EOSTrie), (''b'', Leaf [])])])) ''ab'' =
     Inr (Some (Branch [(''a'', Branch [([], EOSTrie)])])) \<and>
   enchant_trie_remove (Some (Branch [(''a'', Branch [([], EOSTrie)])])) ''a'' =
     Inr (Some (Branch [(''a'', Branch [])])) \<and>
   enchant_trie_insert (Some (Branch [(''a'', Branch [])])) ''ab'' =
     Branch [(''a'', Branch [(''b'', Leaf [])])] \<and>
   \<not> no_single_leaf_branch (Branch [(''a'', Branch [(''b'', Leaf [])])])"
  by code_simp

section \<open>Adding a word twice\<close>

text \<open>
  Claim C8. For a list with a backing file, a second \<open>enchant_pwl_add\<close> of the same
  word (at any later time \<open>t\<close>) appends the word and a newline to the file once more:
  the file after the second call is the file after the first call followed by the word
  and a newline. In memory the second call adds nothing: when it does not reload the
  file (the modification time of the file is the recorded one) it returns the list of
  the first call, and \<open>enchant_pwl_add_to_trie\<close> applied twice is
  \<open>enchant_pwl_add_to_trie\<close> applied once.
\<close>

theorem pwl_add_twice_appends_twice:
  "filename pwl = Some name \<longrightarrow>
   (let W1 = fst (enchant_pwl_add G W pwl w); p1 = snd (enchant_pwl_add G W pwl w);
        W2 = fst (enchant_pwl_add G (W1\<lparr>now := t\<rparr>) p1 w);
        p2 = snd (enchant_pwl_add G (W1\<lparr>now := t\<rparr>) p1 w)
    in files W1 name \<noteq> None \<and>
       map_option contents (files W2 name) =
         map_option (\<lambda>f. contents f @ w @ [CHR 0x0A]) (files W1 name) \<and>
       (map_option st_mtime (files W1 name) = Some (file_changed p1) \<longrightarrow> p2 = p1)) \<and>
   enchant_pwl_add_to_trie G (enchant_pwl_add_to_trie G pwl w) w = enchant_pwl_add_to_trie G pwl w"
proof (intro conjI impI)
  assume f: "filename pwl = Some name"
  let ?W1 = "fst (enchant_pwl_add G W pwl w)"
  let ?p1 = "snd (enchant_pwl_add G W pwl w)"
  let ?W1' = "?W1\<lparr>now := t\<rparr>"
  have f1: "filename ?p1 = Some name"
    using f by (simp add: pwl_add_filename)
  note c1 = pwl_add_file[OF f, of G W w]
  note c2 = pwl_add_file[OF f1, of G ?W1' w]
  have noreload: "enchant_pwl_refresh_from_file G ?W1' ?p1 = ?p1"
    if "map_option st_mtime (files ?W1 name) = Some (file_changed ?p1)"
    using that f1 by (auto simp: enchant_pwl_refresh_from_file_def split: option.splits)
  have same: "snd (enchant_pwl_add G ?W1' ?p1 w) = ?p1"
    if m: "map_option st_mtime (files ?W1 name) = Some (file_changed ?p1)"
  proof -
    have "enchant_pwl_add_to_trie G ?p1 w = ?p1"
      using pwl_add_known[of G W pwl w] by (simp add: enchant_pwl_add_to_trie_def Let_def)
    then show ?thesis
      using m f1 by (auto simp: enchant_pwl_add_def[of G ?W1'] Let_def noreload[OF m] split: option.splits)
  qed
  show "let W1 = ?W1; p1 = ?p1; W2 = fst (enchant_pwl_add G (W1\<lparr>now := t\<rparr>) p1 w);
        p2 = snd (enchant_pwl_add G (W1\<lparr>now := t\<rparr>) p1 w)
    in files W1 name \<noteq> None \<and>
       map_option contents (files W2 name) =
         map_option (\<lambda>f. contents f @ w @ [CHR 0x0A]) (files W1 name) \<and>
       (map_option st_mtime (files W1 name) = Some (file_changed p1) \<longrightarrow> p2 = p1)"
    unfolding Let_def
  proof (intro conjI impI)
    show "files ?W1 name \<noteq> None" using c1 by simp
    show "map_option contents (files (fst (enchant_pwl_add G ?W1' ?p1 w)) name) =
         map_option (\<lambda>f. contents f @ w @ [CHR 0x0A]) (files ?W1 name)"
      unfolding c2 by (simp add: c1)
    show "snd (enchant_pwl_add G ?W1' ?p1 w) = ?p1"
      if "map_option st_mtime (files ?W1 name) = Some (file_changed ?p1)"
      using same[OF that] .
  qed
next
  show "enchant_pwl_add_to_trie G (enchant_pwl_add_to_trie G pwl w) w = enchant_pwl_add_to_trie G pwl w"
    by (rule add_to_trie_twice)
qed

theorem pwl_add_twice_appends_twice_witness:
  "filename (enchant_pwl_init\<lparr>filename := Some ''f''\<rparr>) = Some ''f'' \<and>
   map_option contents
     (files (fst (enchant_pwl_add glib_ascii
        (fst (enchant_pwl_add glib_ascii \<lparr>files = Map.empty, now = 1\<rparr>
               (enchant_pwl_init\<lparr>filename := Some ''f''\<rparr>) ''a'')\<lparr>now := 2\<rparr>)
        (snd (enchant_pwl_add glib_ascii \<lparr>files = Map.empty, now = 1\<rparr>
               (enchant_pwl_init\<lparr>filename := Some ''f''\<rparr>) ''a'')) ''a'')) ''f'') =
     Some [CHR ''a'', CHR 0x0A, CHR ''a'', CHR 0x0A] \<and>
   snd (enchant_pwl_add glib_ascii
        (fst (enchant_pwl_add glib_ascii \<lparr>files = Map.empty, now = 1\<rparr>
               (enchant_pwl_init\<lparr>filename := Some ''f''\<rparr>) ''a'')\<lparr>now := 2\<rparr>)
        (snd (enchant_pwl_add glib_ascii \<lparr>files = Map.empty, now = 1\<rparr>
               (enchant_pwl_init\<lparr>filename := Some ''f''\<rparr>) ''a'')) ''a'') =
   snd (enchant_pwl_add glib_ascii \<lparr>files = Map.empty, now = 1\<rparr>
          (enchant_pwl_init\<lparr>filename := Some ''f''\<rparr>) ''a'')"
proof -
  let ?P = "enchant_pwl_init\<lparr>filename := Some ''f''\<rparr>"
  let ?W = "\<lparr>files = Map.empty, now = 1\<rparr> :: world"
  have h: "filename ?P = Some ''f''"
    by simp
  have c: "files (fst (enchant_pwl_add glib_ascii ?W ?P ''a'')) ''f'' =
      Some \<lparr>contents = [CHR ''a'', CHR 0x0A], st_mtime = 1\<rparr>"
    by (simp add: pwl_add_file[OF h])
  have m: "file_changed (snd (enchant_pwl_add glib_ascii ?W ?P ''a'')) = 1"
    by (simp add: pwl_add_file_changed[OF h])
  note t = pwl_add_twice_appends_twice[of ?P "''f''" glib_ascii ?W "''a''" 2]
  from t h c m show ?thesis
    unfolding Let_def by simp
qed

text \<open>
  The file after one call and after two, for the word \<open>a\<close> and an empty file: \<open>a\<close> on
  one line, then \<open>a\<close> on two lines.
\<close>

theorem pwl_add_twice_file_differs:
  "(let W = \<lparr>files = [''f'' \<mapsto> \<lparr>contents = [], st_mtime = 0\<rparr>], now = 1\<rparr>;
        pwl = enchant_pwl_init\<lparr>filename := Some ''f''\<rparr>;
        W1 = fst (enchant_pwl_add glib_ascii W pwl ''a'');
        p1 = snd (enchant_pwl_add glib_ascii W pwl ''a'');
        W2 = fst (enchant_pwl_add glib_ascii (W1\<lparr>now := 2\<rparr>) p1 ''a'')
    in map_option contents (files W1 ''f'') = Some [CHR ''a'', CHR 0x0A] \<and>
       map_option contents (files W2 ''f'') = Some [CHR ''a'', CHR 0x0A, CHR ''a'', CHR 0x0A])"
  by (simp add: Let_def pwl_add_file pwl_add_filename)

section \<open>The suggestion list during a search\<close>

text \<open>
  Claim C9. The list of a \<open>pwl_suggest\<close> call starts empty and is changed only by the
  callback. It satisfies the invariant at the start; every emission keeps the
  invariant (error counts ascending, no string twice, at most 15 entries), and it either
  leaves the entries as they are or keeps a prefix of them, all with at most the new
  error count, and puts the new entry behind it, so that an entry stands behind the
  earlier entries of the same count; hence the invariant holds after a search from any
  matcher state and for the list that \<open>enchant_pwl_suggest\<close> hands on.
\<close>

theorem suggest_list_sorted_distinct_bounded:
  "sugg_list_ok sugg_list_init \<and>
   (sugg_list_ok (cbdata m) \<longrightarrow>
      sugg_list_ok (cbdata (enchant_pwl_suggest_cb match m)) \<and>
      (sugg_entries (cbdata (enchant_pwl_suggest_cb match m)) = sugg_entries (cbdata m) \<or>
       (\<exists>loc. sugg_entries (cbdata (enchant_pwl_suggest_cb match m)) =
                take loc (sugg_entries (cbdata m)) @ [(Some match, num_errors m)] \<and>
              (\<forall>e \<in> set (take loc (sugg_entries (cbdata m))). snd e \<le> num_errors m)))) \<and>
   (sugg_list_ok (cbdata m) \<longrightarrow>
      sugg_list_ok (cbdata (enchant_trie_find_matches G enchant_pwl_suggest_cb w t m))) \<and>
   sugg_list_ok (suggest_matches G pwl word max_dist)"
proof (intro conjI impI)
  show "sugg_list_ok sugg_list_init"
    by (rule sugg_list_init_ok)
  show "sugg_list_ok (cbdata (enchant_trie_find_matches G enchant_pwl_suggest_cb w t m))"
    if "sugg_list_ok (cbdata m)"
    using that by (rule find_matches_keeps_sugg_list_ok)
  show "sugg_list_ok (suggest_matches G pwl word max_dist)"
    by (rule suggest_matches_ok)
qed (use suggest_cb_invariant in blast)+

theorem suggest_list_sorted_distinct_bounded_witness:
  "sugg_list_ok (cbdata (snd (enchant_trie_matcher_init glib_ascii ''helo'' 3 case_insensitive
      sugg_list_init))) \<and>
   sugg_list_ok (cbdata (enchant_pwl_suggest_cb ''hello''
     (snd (enchant_trie_matcher_init glib_ascii ''helo'' 3 case_insensitive sugg_list_init)))) \<and>
   sugg_list_ok (suggest_matches glib_ascii
     (enchant_pwl_add_to_trie glib_ascii enchant_pwl_init ''hello'') ''helo'' 3)"
proof -
  let ?m = "snd (enchant_trie_matcher_init glib_ascii ''helo'' 3 case_insensitive sugg_list_init)"
  note t = suggest_list_sorted_distinct_bounded[of ?m "''hello''" glib_ascii "''helo''" None
      "enchant_pwl_add_to_trie glib_ascii enchant_pwl_init ''hello''" "''helo''" 3]
  have "sugg_list_ok (cbdata ?m)"
    using t by (simp add: enchant_trie_matcher_init_def Let_def)
  with t show ?thesis by blast
qed

section \<open>Adding a word that is already known\<close>

text \<open>
  Claim C10. When the NFD form of the word is already a key of \<open>words_in_trie\<close>,
  \<open>enchant_pwl_add_to_trie\<close> returns the word list as it was: the trie is the same
  (no insertion took place) and the word stored under the key, the first one seen, is
  not replaced.
\<close>

theorem add_to_trie_known_word_is_noop:
  assumes "words_in_trie pwl (g_utf8_normalize_nfd G word) \<noteq> None"
  shows "enchant_pwl_add_to_trie G pwl word = pwl"
  using assms by (simp add: enchant_pwl_add_to_trie_def)

theorem add_to_trie_known_word_is_noop_witness:
  "words_in_trie (enchant_pwl_add_to_trie glib_ascii enchant_pwl_init ''Hello'')
     (g_utf8_normalize_nfd glib_ascii ''Hello'') \<noteq> None \<and>
   enchant_pwl_add_to_trie glib_ascii
     (enchant_pwl_add_to_trie glib_ascii enchant_pwl_init ''Hello'') ''Hello'' =
   enchant_pwl_add_to_trie glib_ascii enchant_pwl_init ''Hello''"
proof -
  have k: "words_in_trie (enchant_pwl_add_to_trie glib_ascii enchant_pwl_init ''Hello'')
     (g_utf8_normalize_nfd glib_ascii ''Hello'') \<noteq> None"
    by (simp add: enchant_pwl_add_to_trie_def enchant_pwl_init_def glib_ascii_def Let_def)
  from k add_to_trie_known_word_is_noop[OF k] show ?thesis
    by simp
qed

end
